theory Spec2Isabelle
  imports Main "HOL-Library.Multiset" "HOL-Library.Word"
begin

section \<open>Data model\<close>

text \<open>
  \<^verbatim>\<open>struct Plane\<close> of \<^verbatim>\<open>air.cpp\<close>. The fields \<^verbatim>\<open>id\<close> and \<^verbatim>\<open>size\<close> carry the
  suffix \<open>_p\<close>, the names \<open>id\<close> and \<open>size\<close> being constants of HOL. A C++ \<^verbatim>\<open>int\<close> is
  modelled as an \<open>int\<close> of HOL; the places where the source adds to an \<^verbatim>\<open>int\<close> check the
  32-bit range and report \<open>SignedOverflow\<close> (undefined behaviour in C++) when it is left.
\<close>

record Plane =
  id_p :: int
  arrivalTime :: int
  fuelLevel :: int
  size_p :: int
  landingTime :: int
  emergency :: bool

text \<open>The constructor \<^verbatim>\<open>Plane(i, at, fuel, s, lt, e = false)\<close>.\<close>

definition mkPlane :: "int \<Rightarrow> int \<Rightarrow> int \<Rightarrow> int \<Rightarrow> int \<Rightarrow> bool \<Rightarrow> Plane" where
  "mkPlane i at fuel s lt e =
     \<lparr>id_p = i, arrivalTime = at, fuelLevel = fuel, size_p = s, landingTime = lt, emergency = e\<rparr>"

text \<open>
  The two ways in which the program leaves defined behaviour: an index outside a
  \<^verbatim>\<open>vector\<close>, and an \<^verbatim>\<open>int\<close> addition that leaves the 32-bit range.
\<close>

datatype error = OutOfBounds | SignedOverflow

definition INT_MAX :: int where
  "INT_MAX = 2147483647"

definition INT_MIN :: int where
  "INT_MIN = - 2147483648"

definition add_int :: "int \<Rightarrow> int \<Rightarrow> error + int" where
  "add_int a b = (if INT_MIN \<le> a + b \<and> a + b \<le> INT_MAX then Inr (a + b) else Inl SignedOverflow)"

section \<open>Scheduler\<close>

text \<open>\<^verbatim>\<open>Scheduler::compare\<close>: on \<open>bool\<close>, \<open>False < True\<close> as in C++.\<close>

definition compare :: "Plane \<Rightarrow> Plane \<Rightarrow> bool" where
  "compare a b =
     (if emergency a \<noteq> emergency b then emergency a > emergency b
      else if fuelLevel a \<noteq> fuelLevel b then fuelLevel a < fuelLevel b
      else landingTime a < landingTime b)"

text \<open>
  The three-key order in the words of the specification: an emergency entity precedes a
  non-emergency one; with equal emergency status the strictly lower urgency precedes; the
  remaining ties go to the shorter service duration.
\<close>

definition precedes :: "Plane \<Rightarrow> Plane \<Rightarrow> bool" where
  "precedes a b =
     ((emergency a \<and> \<not> emergency b)
      \<or> (emergency a = emergency b \<and> fuelLevel a < fuelLevel b)
      \<or> (emergency a = emergency b \<and> fuelLevel a = fuelLevel b \<and> landingTime a < landingTime b))"

text \<open>
  \<^verbatim>\<open>std::sort(first, last, comp)\<close>. The standard fixes the result up to the order of
  equivalent elements; the model is the insertion sort that the library runs on short
  ranges: the elements are taken from left to right, and each one walks to the left
  through the sorted prefix while it compares less than its left neighbour.
\<close>

function linear_insert :: "('a \<Rightarrow> 'a \<Rightarrow> bool) \<Rightarrow> 'a \<Rightarrow> 'a list \<Rightarrow> 'a list" where
  "linear_insert cmp x ys =
     (if ys = [] then [x]
      else if cmp x (last ys) then linear_insert cmp x (butlast ys) @ [last ys]
      else ys @ [x])"
  by pat_completeness auto
termination
  by (relation "measure (\<lambda>(cmp, x, ys). length ys)") auto

declare linear_insert.simps [simp del]

definition sort_by :: "('a \<Rightarrow> 'a \<Rightarrow> bool) \<Rightarrow> 'a list \<Rightarrow> 'a list" where
  "sort_by cmp xs = foldl (\<lambda>sorted x. linear_insert cmp x sorted) [] xs"

text \<open>\<^verbatim>\<open>Scheduler::addPlane\<close>: \<^verbatim>\<open>push_back\<close>.\<close>

definition addPlane :: "Plane list \<Rightarrow> Plane \<Rightarrow> Plane list" where
  "addPlane readyQueue p = readyQueue @ [p]"

text \<open>
  \<^verbatim>\<open>Scheduler::getNextPlane\<close>: the plane returned and the queue left behind (sorted, its
  front erased).
\<close>

definition getNextPlane :: "Plane list \<Rightarrow> Plane \<times> Plane list" where
  "getNextPlane readyQueue =
     (if readyQueue = [] then (mkPlane (- 1) 0 0 0 0 False, readyQueue)
      else (case sort_by compare readyQueue of
              p # rest \<Rightarrow> (p, rest)
            | [] \<Rightarrow> (mkPlane (- 1) 0 0 0 0 False, [])))"

section \<open>MemoryManager\<close>

text \<open>
  The airspace is a \<^verbatim>\<open>vector<int>\<close>, a cell being free when it holds 0. \<^verbatim>\<open>memory.size()\<close>
  is a \<^verbatim>\<open>size_t\<close>, 64 bits wide and unsigned: an \<^verbatim>\<open>int\<close> that meets it in a subtraction or a
  comparison is converted to \<^verbatim>\<open>size_t\<close> first, and the arithmetic wraps around.
\<close>

type_synonym size_t = "64 word"

definition size_t_of_int :: "int \<Rightarrow> size_t" where
  "size_t_of_int i = word_of_int i"

definition int_of_size_t :: "size_t \<Rightarrow> int" where
  "int_of_size_t w = sint (ucast w :: 32 word)"

definition vec_size :: "int list \<Rightarrow> size_t" where
  "vec_size v = word_of_nat (length v)"

text \<open>The constructor \<^verbatim>\<open>MemoryManager(int size) : memory(size, 0)\<close>.\<close>

definition MemoryManager :: "int \<Rightarrow> int list" where
  "MemoryManager sz = replicate (nat sz) 0"

text \<open>\<^verbatim>\<open>memory[k]\<close>, read: an index outside the vector is undefined behaviour.\<close>

definition at :: "int list \<Rightarrow> int \<Rightarrow> error + int" where
  "at v k = (if 0 \<le> k \<and> k < int (length v) then Inr (v ! nat k) else Inl OutOfBounds)"

text \<open>
  The inner loop of \<^verbatim>\<open>allocate\<close>, \<^verbatim>\<open>while (j < size && memory[i + j] == 0) j++;\<close>: the value
  of \<^verbatim>\<open>j\<close> when the loop is left.
\<close>

function scan :: "int list \<Rightarrow> int \<Rightarrow> int \<Rightarrow> int \<Rightarrow> error + int" where
  "scan memory i sz j =
     (if j < sz then
        (case add_int i j of
           Inl e \<Rightarrow> Inl e
         | Inr k \<Rightarrow>
             (case at memory k of
                Inl e \<Rightarrow> Inl e
              | Inr m \<Rightarrow> if m = 0 then scan memory i sz (j + 1) else Inr j))
      else Inr j)"
  by pat_completeness auto
termination
  by (relation "measure (\<lambda>(memory, i, sz, j). nat (sz - j))") auto

declare scan.simps [simp del]

text \<open>
  The outer loop of \<^verbatim>\<open>allocate\<close>,
  \<^verbatim>\<open>for (int i = 0; i <= memory.size() - size; ++i)\<close>, from a given \<^verbatim>\<open>i\<close>, with the current
  \<^verbatim>\<open>bestStart\<close> and \<^verbatim>\<open>bestSize\<close>: the final \<^verbatim>\<open>bestStart\<close>. The bound is computed and
  compared in \<^verbatim>\<open>size_t\<close>.
\<close>

function best_fit :: "int list \<Rightarrow> int \<Rightarrow> int \<Rightarrow> int \<Rightarrow> int \<Rightarrow> error + int" where
  "best_fit memory sz i bestStart bestSize =
     (if size_t_of_int i \<le> vec_size memory - size_t_of_int sz then
        (case scan memory i sz 0 of
           Inl e \<Rightarrow> Inl e
         | Inr j \<Rightarrow>
             (case add_int i 1 of
                Inl e \<Rightarrow> Inl e
              | Inr i' \<Rightarrow>
                  if j = sz \<and> sz < bestSize then best_fit memory sz i' i sz
                  else best_fit memory sz i' bestStart bestSize))
      else Inr bestStart)"
  by pat_completeness auto
termination
  by (relation "measure (\<lambda>(memory, sz, i, bestStart, bestSize). nat (INT_MAX - i))")
     (auto simp: add_int_def split: if_splits)

declare best_fit.simps [simp del]

text \<open>
  \<^verbatim>\<open>for (int i = start; i < start + size; ++i) memory[i] = v;\<close>, the loop that \<^verbatim>\<open>allocate\<close>
  runs with \<open>v = 1\<close> and \<^verbatim>\<open>deallocate\<close> with \<open>v = 0\<close>.
\<close>

function set_from :: "int list \<Rightarrow> int \<Rightarrow> int \<Rightarrow> int \<Rightarrow> error + int list" where
  "set_from memory i stop v =
     (if i < stop then
        (if 0 \<le> i \<and> i < int (length memory) then set_from (memory[nat i := v]) (i + 1) stop v
         else Inl OutOfBounds)
      else Inr memory)"
  by pat_completeness auto
termination
  by (relation "measure (\<lambda>(memory, i, stop, v). nat (stop - i))") auto

declare set_from.simps [simp del]

definition set_cells :: "int list \<Rightarrow> int \<Rightarrow> int \<Rightarrow> int \<Rightarrow> error + int list" where
  "set_cells memory start sz v =
     (case add_int start sz of
        Inl e \<Rightarrow> Inl e
      | Inr stop \<Rightarrow> set_from memory start stop v)"

text \<open>\<^verbatim>\<open>MemoryManager::allocate\<close>: the index returned and the memory after the call.\<close>

definition allocate :: "int list \<Rightarrow> int \<Rightarrow> error + (int \<times> int list)" where
  "allocate memory sz =
     (case best_fit memory sz 0 (- 1) (int_of_size_t (vec_size memory + 1)) of
        Inl e \<Rightarrow> Inl e
      | Inr bestStart \<Rightarrow>
          if bestStart \<noteq> - 1 then
            (case set_cells memory bestStart sz 1 of
               Inl e \<Rightarrow> Inl e
             | Inr memory' \<Rightarrow> Inr (bestStart, memory'))
          else Inr (bestStart, memory))"

text \<open>\<^verbatim>\<open>MemoryManager::deallocate\<close>.\<close>

definition deallocate :: "int list \<Rightarrow> int \<Rightarrow> int \<Rightarrow> error + int list" where
  "deallocate memory start sz = set_cells memory start sz 0"

text \<open>
  \<^verbatim>\<open>MemoryManager::isSafe\<close>. The count cannot leave the range of \<^verbatim>\<open>int\<close>: the vector is
  built from an \<^verbatim>\<open>int\<close> size and never grows.
\<close>

definition isSafe :: "int list \<Rightarrow> int \<Rightarrow> bool" where
  "isSafe memory reqSize =
     (let freeCount = fold (\<lambda>m c. if m = 0 then c + 1 else c) memory (0 :: int)
      in freeCount \<ge> reqSize)"

section \<open>Simulation engine\<close>

text \<open>
  The state of \<^verbatim>\<open>simulate\<close>: the planes still to arrive, the scheduler's ready queue, the
  airspace, the clock and the pairs (plane id, landing time) collected for the chart. The
  weather delay and the pauses only print and sleep; they are left out.
\<close>

record sim_state =
  incoming :: "Plane list"
  readyQueue :: "Plane list"
  memory :: "int list"
  time :: int
  gantt :: "(int \<times> int) list"

text \<open>
  The admission loop: every plane of \<^verbatim>\<open>incoming\<close> with \<^verbatim>\<open>arrivalTime <= time\<close> is pushed
  onto the ready queue and erased from \<^verbatim>\<open>incoming\<close>, in their order. The result is the
  pair of what stays in \<^verbatim>\<open>incoming\<close> and the new ready queue.
\<close>

fun admit :: "int \<Rightarrow> Plane list \<Rightarrow> Plane list \<Rightarrow> Plane list \<times> Plane list" where
  "admit t [] rq = ([], rq)"
| "admit t (p # ps) rq =
     (if arrivalTime p \<le> t then admit t ps (addPlane rq p)
      else (case admit t ps rq of (inc, rq') \<Rightarrow> (p # inc, rq')))"

text \<open>One pass through the body of the \<^verbatim>\<open>while\<close> loop of \<^verbatim>\<open>simulate\<close>.\<close>

definition step :: "sim_state \<Rightarrow> error + sim_state" where
  "step s =
     (case admit (time s) (incoming s) (readyQueue s) of (inc, rq) \<Rightarrow>
      case getNextPlane rq of (current, rq') \<Rightarrow>
        if id_p current = - 1 then
          (case add_int (time s) 1 of
             Inl e \<Rightarrow> Inl e
           | Inr t \<Rightarrow> Inr (s\<lparr>incoming := inc, readyQueue := rq', time := t\<rparr>))
        else if \<not> isSafe (memory s) (size_p current) then
          (case add_int (time s) 1 of
             Inl e \<Rightarrow> Inl e
           | Inr t \<Rightarrow> Inr (s\<lparr>incoming := inc, readyQueue := addPlane rq' current, time := t\<rparr>))
        else
          (case allocate (memory s) (size_p current) of
             Inl e \<Rightarrow> Inl e
           | Inr (memIndex, mem) \<Rightarrow>
               if memIndex = - 1 then
                 (case add_int (time s) 1 of
                    Inl e \<Rightarrow> Inl e
                  | Inr t \<Rightarrow>
                      Inr (s\<lparr>incoming := inc, readyQueue := addPlane rq' current,
                             memory := mem, time := t\<rparr>))
               else
                 (case add_int (time s) (landingTime current) of
                    Inl e \<Rightarrow> Inl e
                  | Inr t \<Rightarrow>
                      (case deallocate mem memIndex (size_p current) of
                         Inl e \<Rightarrow> Inl e
                       | Inr mem' \<Rightarrow>
                           Inr (s\<lparr>incoming := inc, readyQueue := rq', memory := mem', time := t,
                                  gantt := gantt s @ [(id_p current, landingTime current)]\<rparr>)))))"

text \<open>The condition of the \<^verbatim>\<open>while\<close> loop.\<close>

definition pending :: "sim_state \<Rightarrow> bool" where
  "pending s = (incoming s \<noteq> [] \<or> readyQueue s \<noteq> [])"

text \<open>The state in which \<^verbatim>\<open>simulate\<close> enters its loop.\<close>

definition init :: "Plane list \<Rightarrow> sim_state" where
  "init planes =
     \<lparr>incoming = planes, readyQueue = [], memory = MemoryManager 20, time = 0, gantt = []\<rparr>"

text \<open>
  The chart printed after the loop: for each pair the plane id, the start time \<^verbatim>\<open>t\<close> and the
  end time \<^verbatim>\<open>t + duration\<close>, with \<^verbatim>\<open>t\<close> starting at 0 and growing by the durations. The
  first column of the chart, the number of the row, is left out.
\<close>

fun ganttReport :: "int \<Rightarrow> (int \<times> int) list \<Rightarrow> error + (int \<times> int \<times> int) list" where
  "ganttReport t [] = Inr []"
| "ganttReport t ((planeID, duration) # g) =
     (case add_int t duration of
        Inl e \<Rightarrow> Inl e
      | Inr t' \<Rightarrow>
          (case ganttReport t' g of
             Inl e \<Rightarrow> Inl e
           | Inr rows \<Rightarrow> Inr ((planeID, t, t') # rows)))"

text \<open>
  The \<^verbatim>\<open>while\<close> loop of \<^verbatim>\<open>simulate\<close>, from a given state to the state in which the loop is
  left. It ends for every state, with a final state or with undefined behaviour: its
  termination is proved below, after the lemmas on \<open>step\<close> that the proof needs.
\<close>

function sim_loop :: "sim_state \<Rightarrow> error + sim_state" where
  "sim_loop s =
     (if pending s then
        (case step s of
           Inl e \<Rightarrow> Inl e
         | Inr s' \<Rightarrow> sim_loop s')
      else Inr s)"
  by pat_completeness auto

text \<open>\<^verbatim>\<open>simulate\<close>: the rows of the chart that a run prints.\<close>

definition simulate :: "Plane list \<Rightarrow> error + (int \<times> int \<times> int) list" where
  "simulate planes =
     (case sim_loop (init planes) of
        Inl e \<Rightarrow> Inl e
      | Inr s \<Rightarrow> ganttReport 0 (gantt s))"

text \<open>The states in which a run of \<^verbatim>\<open>simulate\<close> on \<open>planes\<close> tests the loop condition.\<close>

inductive reachable :: "Plane list \<Rightarrow> sim_state \<Rightarrow> bool" for planes :: "Plane list" where
  reachable_init: "reachable planes (init planes)"
| reachable_step: "reachable planes s \<Longrightarrow> pending s \<Longrightarrow> step s = Inr s' \<Longrightarrow> reachable planes s'"

section \<open>Notions used in the statements\<close>

text \<open>A list in which no element precedes an earlier one.\<close>

definition ordered :: "Plane list \<Rightarrow> bool" where
  "ordered xs = sorted_wrt (\<lambda>a b. \<not> precedes b a) xs"

text \<open>The cells \<open>[i, i + d)\<close> lie inside the airspace and are all free.\<close>

definition free_run :: "int list \<Rightarrow> int \<Rightarrow> int \<Rightarrow> bool" where
  "free_run mem i d =
     (0 \<le> i \<and> i + d \<le> int (length mem) \<and> list_all (\<lambda>m. m = 0) (take (nat d) (drop (nat i) mem)))"

text \<open>The airspace with the cells \<open>[i, i + d)\<close> set to \<open>v\<close>.\<close>

definition with_cells :: "int list \<Rightarrow> int \<Rightarrow> int \<Rightarrow> int \<Rightarrow> int list" where
  "with_cells mem i d v =
     map (\<lambda>k. if i \<le> int k \<and> int k < i + d then v else mem ! k) [0..<length mem]"

text \<open>
  No \<^verbatim>\<open>int\<close> of a pass through the loop body leaves its range: the clock can take one more
  unit and the landing time of every plane still in a queue, and the scan of \<^verbatim>\<open>allocate\<close> for
  any of these planes ends before its index \<^verbatim>\<open>i\<close> reaches \<open>INT_MAX\<close>.
\<close>

definition no_overflow :: "sim_state \<Rightarrow> bool" where
  "no_overflow s =
     (INT_MIN \<le> time s \<and> time s < INT_MAX
      \<and> list_all (\<lambda>p. INT_MIN \<le> time s + landingTime p \<and> time s + landingTime p \<le> INT_MAX
                      \<and> int (length (memory s)) - size_p p < INT_MAX)
           (incoming s @ readyQueue s))"

section \<open>Properties of the scheduler\<close>

lemma compare_precedes: "compare a b = precedes a b"
  by (auto simp: compare_def precedes_def)

lemma precedes_asym: "precedes a b \<Longrightarrow> \<not> precedes b a"
  by (auto simp: precedes_def)

lemma not_precedes_trans: "\<not> precedes b a \<Longrightarrow> \<not> precedes c b \<Longrightarrow> \<not> precedes c a"
  by (auto simp: precedes_def)

lemma linear_insert_Nil [simp]: "linear_insert cmp x [] = [x]"
  by (simp add: linear_insert.simps [of cmp x "[]"])

lemma mset_linear_insert: "mset (linear_insert cmp x ys) = add_mset x (mset ys)"
proof (induction cmp x ys rule: linear_insert.induct)
  case (1 cmp x ys)
  show ?case
  proof (cases "ys = []")
    case True
    then show ?thesis by simp
  next
    case False
    then have split: "ys = butlast ys @ [last ys]" by simp
    have "mset ys = add_mset (last ys) (mset (butlast ys))"
      by (subst split) simp
    then show ?thesis using False "1.IH" by (simp add: linear_insert.simps [of cmp x ys])
  qed
qed

lemma set_linear_insert: "set (linear_insert cmp x ys) = insert x (set ys)"
  using mset_linear_insert [of cmp x ys] by (metis set_mset_add_mset_insert set_mset_mset)

lemma mset_foldl_linear_insert:
  "mset (foldl (\<lambda>sorted x. linear_insert cmp x sorted) acc xs) = mset acc + mset xs"
  by (induction xs arbitrary: acc) (simp_all add: mset_linear_insert)

lemma mset_sort_by: "mset (sort_by cmp xs) = mset xs"
  by (simp add: sort_by_def mset_foldl_linear_insert)

lemma sort_by_Nil_iff: "sort_by cmp xs = [] \<longleftrightarrow> xs = []"
  using mset_sort_by [of cmp xs] by (metis mset_zero_iff)

lemma ordered_snoc:
  "ordered (ys @ [l]) \<longleftrightarrow> ordered ys \<and> (\<forall>y \<in> set ys. \<not> precedes l y)"
  by (auto simp: ordered_def sorted_wrt_append)

lemma ordered_linear_insert:
  "ordered ys \<Longrightarrow> ordered (linear_insert compare x ys)"
proof (induction compare x ys rule: linear_insert.induct)
  case (1 x ys)
  show ?case
  proof (cases "ys = []")
    case True
    then show ?thesis by (simp add: ordered_def)
  next
    case False
    then have split: "ys = butlast ys @ [last ys]" by simp
    have ob: "ordered (butlast ys)" and lb: "\<forall>y \<in> set (butlast ys). \<not> precedes (last ys) y"
      using "1.prems" ordered_snoc [of "butlast ys" "last ys"] split by simp_all
    show ?thesis
    proof (cases "compare x (last ys)")
      case True
      then have "\<not> precedes (last ys) x"
        by (simp add: compare_precedes precedes_asym)
      moreover have "ordered (linear_insert compare x (butlast ys))"
        using "1.hyps" False True ob by simp
      ultimately have "ordered (linear_insert compare x (butlast ys) @ [last ys])"
        using lb by (simp only: ordered_snoc set_linear_insert) simp
      then show ?thesis using False True
        by (simp add: linear_insert.simps [of compare x ys])
    next
      case nlt: False
      then have nl: "\<not> precedes x (last ys)" by (simp add: compare_precedes)
      have "\<forall>y \<in> set ys. \<not> precedes x y"
      proof
        fix y assume "y \<in> set ys"
        then have "y = last ys \<or> y \<in> set (butlast ys)"
          using split by (metis Un_iff insert_iff list.set(2) set_append empty_set empty_iff)
        then have "\<not> precedes (last ys) y" using lb by (auto simp: precedes_def)
        then show "\<not> precedes x y" using nl not_precedes_trans by blast
      qed
      then have "ordered (ys @ [x])" using "1.prems" by (simp only: ordered_snoc)
      then show ?thesis using False nlt
        by (simp add: linear_insert.simps [of compare x ys])
    qed
  qed
qed

lemma ordered_foldl_linear_insert:
  "ordered acc \<Longrightarrow> ordered (foldl (\<lambda>sorted x. linear_insert compare x sorted) acc xs)"
  by (induction xs arbitrary: acc) (simp_all add: ordered_linear_insert)

lemma ordered_sort_by: "ordered (sort_by compare xs)"
  by (simp add: sort_by_def ordered_foldl_linear_insert ordered_def [of "[]"])

section \<open>Properties of the memory manager\<close>

lemma size_t_of_int_le:
  assumes "0 \<le> a" "a < 2 ^ 64" "0 \<le> b" "b < 2 ^ 64"
  shows "(size_t_of_int a \<le> size_t_of_int b) = (a \<le> b)"
  using assms by (simp add: size_t_of_int_def word_le_def uint_word_of_int)

lemma bound_diff: "vec_size mem - size_t_of_int sz = size_t_of_int (int (length mem) - sz)"
  by (simp add: vec_size_def size_t_of_int_def)

lemma bound_in_range:
  assumes "0 \<le> i" "i \<le> INT_MAX" "sz \<le> int (length mem)" "int (length mem) - sz \<le> INT_MAX"
  shows "(size_t_of_int i \<le> vec_size mem - size_t_of_int sz) = (i \<le> int (length mem) - sz)"
proof -
  have "(size_t_of_int i \<le> size_t_of_int (int (length mem) - sz)) = (i \<le> int (length mem) - sz)"
    using assms by (intro size_t_of_int_le) (simp_all add: INT_MAX_def)
  then show ?thesis by (simp add: bound_diff)
qed

lemma bound_wrapped:
  assumes "0 \<le> i" "i \<le> INT_MAX" "int (length mem) < sz" "sz \<le> INT_MAX"
  shows "size_t_of_int i \<le> vec_size mem - size_t_of_int sz"
proof -
  let ?d = "int (length mem) - sz"
  have r: "- (2 ^ 31) \<le> ?d" "?d < 0" using assms by (simp_all add: INT_MAX_def)
  have "uint (size_t_of_int ?d) = ?d + 2 ^ 64"
  proof -
    have "?d mod 2 ^ 64 = (?d + 2 ^ 64) mod 2 ^ 64" by simp
    also have "\<dots> = ?d + 2 ^ 64" using r by (intro mod_pos_pos_trivial) simp_all
    finally show ?thesis unfolding size_t_of_int_def uint_word_of_int by simp
  qed
  moreover have "uint (size_t_of_int i) = i"
    using assms by (simp add: size_t_of_int_def uint_word_of_int INT_MAX_def)
  ultimately show ?thesis using assms r by (simp add: bound_diff word_le_def INT_MAX_def)
qed

lemma word_of_int_of_nat: "(word_of_int (int n) :: 'a::len word) = word_of_nat n"
  by simp

lemma unat_size_t_small: "n < 2 ^ 31 \<Longrightarrow> unat (word_of_nat n :: 64 word) = n"
  by (simp add: unat_of_nat take_bit_nat_eq_self)

lemma sint_int_small: "n < 2 ^ 31 \<Longrightarrow> sint (word_of_nat n :: 32 word) = int n"
  by (simp only: signed_of_nat) (simp add: signed_take_bit_int_eq_self)

lemma best_size_init:
  assumes "int (length mem) < INT_MAX"
  shows "int_of_size_t (vec_size mem + 1) = int (length mem) + 1"
proof -
  let ?n = "length mem + 1"
  have small: "?n < 2 ^ 31" using assms by (simp add: INT_MAX_def)
  have "vec_size mem + 1 = (word_of_nat ?n :: 64 word)"
    by (simp add: vec_size_def)
  moreover have "unat (word_of_nat ?n :: 64 word) = ?n"
    using small by (rule unat_size_t_small)
  ultimately have "uint (vec_size mem + 1) = int ?n"
    by (simp only: uint_nat)
  then have "(ucast (vec_size mem + 1) :: 32 word) = word_of_nat ?n"
    by (simp only: ucast_eq word_of_int_of_nat)
  moreover have "sint (word_of_nat ?n :: 32 word) = int ?n"
    using small by (rule sint_int_small)
  ultimately show ?thesis by (simp add: int_of_size_t_def)
qed

lemma add_int_in_range: "INT_MIN \<le> a + b \<Longrightarrow> a + b \<le> INT_MAX \<Longrightarrow> add_int a b = Inr (a + b)"
  by (simp add: add_int_def)

lemma INT_MIN_neg: "INT_MIN < 0"
  by (simp add: INT_MIN_def)

lemma at_in_range: "0 \<le> k \<Longrightarrow> k < int (length mem) \<Longrightarrow> at mem k = Inr (mem ! nat k)"
  by (simp add: at_def)

lemma free_run_iff:
  assumes "0 \<le> i" "0 \<le> d" "i + d \<le> int (length mem)"
  shows "free_run mem i d \<longleftrightarrow> (\<forall>k. 0 \<le> k \<and> k < d \<longrightarrow> mem ! nat (i + k) = 0)"
proof -
  have len: "length (take (nat d) (drop (nat i) mem)) = nat d" using assms by simp
  have "list_all (\<lambda>m. m = 0) (take (nat d) (drop (nat i) mem))
        \<longleftrightarrow> (\<forall>q < nat d. mem ! (nat i + q) = 0)"
    using assms by (simp add: list_all_length)
  also have "\<dots> \<longleftrightarrow> (\<forall>k. 0 \<le> k \<and> k < d \<longrightarrow> mem ! nat (i + k) = 0)"
  proof
    assume h: "\<forall>q < nat d. mem ! (nat i + q) = 0"
    show "\<forall>k. 0 \<le> k \<and> k < d \<longrightarrow> mem ! nat (i + k) = 0"
    proof (intro allI impI)
      fix k :: int assume k: "0 \<le> k \<and> k < d"
      then have "nat k < nat d" by simp
      then have "mem ! (nat i + nat k) = 0" using h by blast
      moreover have "nat i + nat k = nat (i + k)" using assms k by (simp add: nat_add_distrib)
      ultimately show "mem ! nat (i + k) = 0" by simp
    qed
  next
    assume h: "\<forall>k. 0 \<le> k \<and> k < d \<longrightarrow> mem ! nat (i + k) = 0"
    show "\<forall>q < nat d. mem ! (nat i + q) = 0"
    proof (intro allI impI)
      fix q assume "q < nat d"
      then have "0 \<le> int q \<and> int q < d" by simp
      then have "mem ! nat (i + int q) = 0" using h by blast
      moreover have "nat (i + int q) = nat i + q" using assms by (simp add: nat_add_distrib)
      ultimately show "mem ! (nat i + q) = 0" by simp
    qed
  qed
  finally show ?thesis using assms by (simp add: free_run_def)
qed

lemma scan_in_range:
  assumes "0 \<le> i" "0 \<le> j" "j \<le> sz" "i + sz \<le> int (length mem)" "int (length mem) \<le> INT_MAX"
  shows "\<exists>r. scan mem i sz j = Inr r \<and> j \<le> r \<and> r \<le> sz
            \<and> (r = sz \<longleftrightarrow> (\<forall>k. j \<le> k \<and> k < sz \<longrightarrow> mem ! nat (i + k) = 0))"
  using assms
proof (induction mem i sz j rule: scan.induct)
  case (1 mem i sz j)
  show ?case
  proof (cases "j < sz")
    case False
    then have "scan mem i sz j = Inr j" by (simp add: scan.simps [of mem i sz j])
    moreover have "j = sz" using False "1.prems" by simp
    ultimately show ?thesis by simp
  next
    case True
    have a: "add_int i j = Inr (i + j)"
      using "1.prems" True INT_MIN_neg by (intro add_int_in_range) simp_all
    have b: "at mem (i + j) = Inr (mem ! nat (i + j))"
      using "1.prems" True by (intro at_in_range) simp_all
    show ?thesis
    proof (cases "mem ! nat (i + j) = 0")
      case nz: False
      have "scan mem i sz j = Inr j"
        using True a b nz by (simp add: scan.simps [of mem i sz j])
      moreover have "\<not> (\<forall>k. j \<le> k \<and> k < sz \<longrightarrow> mem ! nat (i + k) = 0)"
        using nz True by auto
      ultimately show ?thesis using True by simp
    next
      case z: True
      have eq: "scan mem i sz j = scan mem i sz (j + 1)"
        using True a b z by (simp add: scan.simps [of mem i sz j])
      obtain r where r: "scan mem i sz (j + 1) = Inr r" "j + 1 \<le> r" "r \<le> sz"
        "r = sz \<longleftrightarrow> (\<forall>k. j + 1 \<le> k \<and> k < sz \<longrightarrow> mem ! nat (i + k) = 0)"
        using "1.IH" [OF True a b z] "1.prems" True by auto
      have "(\<forall>k. j + 1 \<le> k \<and> k < sz \<longrightarrow> mem ! nat (i + k) = 0)
            \<longleftrightarrow> (\<forall>k. j \<le> k \<and> k < sz \<longrightarrow> mem ! nat (i + k) = 0)"
      proof
        assume h: "\<forall>k. j + 1 \<le> k \<and> k < sz \<longrightarrow> mem ! nat (i + k) = 0"
        show "\<forall>k. j \<le> k \<and> k < sz \<longrightarrow> mem ! nat (i + k) = 0"
        proof (intro allI impI)
          fix k assume k: "j \<le> k \<and> k < sz"
          show "mem ! nat (i + k) = 0"
          proof (cases "k = j")
            case True then show ?thesis using z by simp
          next
            case False then show ?thesis using h k by simp
          qed
        qed
      qed simp
      then show ?thesis using r eq by auto
    qed
  qed
qed

lemma scan_free_run:
  assumes "0 \<le> i" "0 \<le> sz" "i + sz \<le> int (length mem)" "int (length mem) \<le> INT_MAX"
  shows "\<exists>r. scan mem i sz 0 = Inr r \<and> (r = sz \<longleftrightarrow> free_run mem i sz)"
  using scan_in_range [of i 0 sz mem] free_run_iff [of i sz mem] assms by auto

lemma scan_oversized:
  assumes "0 \<le> i" "0 \<le> j" "i + j \<le> int (length mem)" "int (length mem) < i + sz"
    "int (length mem) \<le> INT_MAX"
  shows "scan mem i sz j = Inl OutOfBounds \<or> (\<exists>r. scan mem i sz j = Inr r \<and> i < int (length mem))"
  using assms
proof (induction mem i sz j rule: scan.induct)
  case (1 mem i sz j)
  have lt: "j < sz" using "1.prems" by simp
  have a: "add_int i j = Inr (i + j)"
    using "1.prems" INT_MIN_neg by (intro add_int_in_range) simp_all
  show ?case
  proof (cases "i + j = int (length mem)")
    case True
    then have "at mem (i + j) = Inl OutOfBounds" by (simp add: at_def)
    then show ?thesis using lt a by (simp add: scan.simps [of mem i sz j])
  next
    case False
    then have inside: "i + j < int (length mem)" using "1.prems" by simp
    have b: "at mem (i + j) = Inr (mem ! nat (i + j))"
      using "1.prems" inside by (intro at_in_range) simp_all
    show ?thesis
    proof (cases "mem ! nat (i + j) = 0")
      case nz: False
      then have "scan mem i sz j = Inr j"
        using lt a b by (simp add: scan.simps [of mem i sz j])
      then show ?thesis using inside "1.prems" by simp
    next
      case z: True
      have eq: "scan mem i sz j = scan mem i sz (j + 1)"
        using lt a b z by (simp add: scan.simps [of mem i sz j])
      show ?thesis
        using "1.IH" [OF lt a b z] "1.prems" inside eq by simp
    qed
  qed
qed

lemma best_fit_step:
  assumes "size_t_of_int i \<le> vec_size mem - size_t_of_int sz" "scan mem i sz 0 = Inr j"
    "add_int i 1 = Inr i'"
  shows "j = sz \<and> sz < bestSize \<Longrightarrow>
           best_fit mem sz i bestStart bestSize = best_fit mem sz i' i sz"
    and "\<not> (j = sz \<and> sz < bestSize) \<Longrightarrow>
           best_fit mem sz i bestStart bestSize = best_fit mem sz i' bestStart bestSize"
  using assms by (auto simp: best_fit.simps [of mem sz i])

lemma best_fit_oversized:
  assumes "0 \<le> i" "i \<le> int (length mem)" "int (length mem) < sz" "sz \<le> INT_MAX"
  shows "best_fit mem sz i bestStart bestSize = Inl OutOfBounds"
  using assms
proof (induction mem sz i bestStart bestSize rule: best_fit.induct)
  case (1 mem sz i bestStart bestSize)
  have n: "int (length mem) \<le> INT_MAX" using "1.prems" by simp
  have c: "size_t_of_int i \<le> vec_size mem - size_t_of_int sz"
    using "1.prems" by (intro bound_wrapped) simp_all
  from scan_oversized [of i 0 mem sz] "1.prems" n
  consider "scan mem i sz 0 = Inl OutOfBounds"
    | r where "scan mem i sz 0 = Inr r" "i < int (length mem)"
    by auto
  then show ?case
  proof cases
    case 1
    then show ?thesis using c by (simp add: best_fit.simps [of mem sz i])
  next
    case (2 r)
    have a: "add_int i 1 = Inr (i + 1)"
      using "1.prems" 2 INT_MIN_neg by (intro add_int_in_range) simp_all
    have rng: "0 \<le> i + 1" "i + 1 \<le> int (length mem)" using "1.prems" 2 by simp_all
    show ?thesis
    proof (cases "r = sz \<and> sz < bestSize")
      case True
      have "best_fit mem sz (i + 1) i sz = Inl OutOfBounds"
        using "1.IH" (1) [OF c 2(1) a True] rng "1.prems" by simp
      then show ?thesis using best_fit_step (1) [OF c 2(1) a True] by simp
    next
      case False
      have "best_fit mem sz (i + 1) bestStart bestSize = Inl OutOfBounds"
        using "1.IH" (2) [OF c 2(1) a False] rng "1.prems" by simp
      then show ?thesis using best_fit_step (2) [OF c 2(1) a False] by simp
    qed
  qed
qed

lemma allocate_oversized:
  assumes "int (length mem) < sz" "sz \<le> INT_MAX"
  shows "allocate mem sz = Inl OutOfBounds"
  using best_fit_oversized [of 0 mem sz] assms by (simp add: allocate_def)

lemma best_fit_done:
  assumes "0 \<le> i" "i \<le> int (length mem) - sz + 1" "0 \<le> sz" "sz \<le> int (length mem)"
    "int (length mem) < INT_MAX" "\<not> sz < bestSize"
  shows "best_fit mem sz i bestStart bestSize = Inr bestStart"
  using assms
proof (induction mem sz i bestStart bestSize rule: best_fit.induct)
  case (1 mem sz i bestStart bestSize)
  have c: "(size_t_of_int i \<le> vec_size mem - size_t_of_int sz) = (i \<le> int (length mem) - sz)"
    using "1.prems" by (intro bound_in_range) simp_all
  show ?case
  proof (cases "i \<le> int (length mem) - sz")
    case False
    then show ?thesis using c by (simp add: best_fit.simps [of mem sz i])
  next
    case True
    then have c': "size_t_of_int i \<le> vec_size mem - size_t_of_int sz" using c by simp
    obtain r where r: "scan mem i sz 0 = Inr r"
      using scan_free_run [of i sz mem] "1.prems" True by auto
    have a: "add_int i 1 = Inr (i + 1)"
      using "1.prems" True INT_MIN_neg by (intro add_int_in_range) simp_all
    have f: "\<not> (r = sz \<and> sz < bestSize)" using "1.prems" by simp
    have "best_fit mem sz (i + 1) bestStart bestSize = Inr bestStart"
      using "1.IH" (2) [OF c' r a f] "1.prems" True by simp
    then show ?thesis using best_fit_step (2) [OF c' r a f] by simp
  qed
qed

lemma best_fit_search:
  assumes "0 \<le> i" "i \<le> int (length mem) - sz + 1" "0 \<le> sz" "sz \<le> int (length mem)"
    "int (length mem) < INT_MAX" "sz < bestSize" "bestStart = - 1"
  shows "\<exists>r. best_fit mem sz i bestStart bestSize = Inr r
            \<and> (if \<exists>k. i \<le> k \<and> free_run mem k sz
                then i \<le> r \<and> free_run mem r sz \<and> (\<forall>k. i \<le> k \<and> free_run mem k sz \<longrightarrow> r \<le> k)
                else r = - 1)"
  using assms
proof (induction mem sz i bestStart bestSize rule: best_fit.induct)
  case (1 mem sz i bestStart bestSize)
  have c: "(size_t_of_int i \<le> vec_size mem - size_t_of_int sz) = (i \<le> int (length mem) - sz)"
    using "1.prems" by (intro bound_in_range) simp_all
  show ?case
  proof (cases "i \<le> int (length mem) - sz")
    case False
    then have "best_fit mem sz i bestStart bestSize = Inr (- 1)"
      using c "1.prems" by (simp add: best_fit.simps [of mem sz i])
    moreover have "\<not> (\<exists>k. i \<le> k \<and> free_run mem k sz)"
      using False by (auto simp: free_run_def)
    ultimately show ?thesis by auto
  next
    case True
    then have c': "size_t_of_int i \<le> vec_size mem - size_t_of_int sz" using c by simp
    obtain r where r: "scan mem i sz 0 = Inr r" and rf: "r = sz \<longleftrightarrow> free_run mem i sz"
      using scan_free_run [of i sz mem] "1.prems" True by auto
    have a: "add_int i 1 = Inr (i + 1)"
      using "1.prems" True INT_MIN_neg by (intro add_int_in_range) simp_all
    show ?thesis
    proof (cases "r = sz")
      case found: True
      then have t: "r = sz \<and> sz < bestSize" using "1.prems" by simp
      have "best_fit mem sz (i + 1) i sz = Inr i"
        using "1.prems" True by (intro best_fit_done) simp_all
      then have "best_fit mem sz i bestStart bestSize = Inr i"
        using best_fit_step (1) [OF c' r a t] by simp
      moreover have "free_run mem i sz" using found rf by simp
      ultimately show ?thesis by auto
    next
      case nf: False
      then have f: "\<not> (r = sz \<and> sz < bestSize)" by simp
      have nfree: "\<not> free_run mem i sz" using nf rf by simp
      have eq: "best_fit mem sz i bestStart bestSize = best_fit mem sz (i + 1) bestStart bestSize"
        using best_fit_step (2) [OF c' r a f] by simp
      have ih: "\<exists>r. best_fit mem sz (i + 1) bestStart bestSize = Inr r
            \<and> (if \<exists>k. i + 1 \<le> k \<and> free_run mem k sz
                then i + 1 \<le> r \<and> free_run mem r sz \<and> (\<forall>k. i + 1 \<le> k \<and> free_run mem k sz \<longrightarrow> r \<le> k)
                else r = - 1)"
        using "1.IH" (2) [OF c' r a f] "1.prems" True by simp
      have shift: "(i \<le> k \<and> free_run mem k sz) \<longleftrightarrow> (i + 1 \<le> k \<and> free_run mem k sz)" for k
        using nfree by (cases "k = i") auto
      obtain q where q: "best_fit mem sz (i + 1) bestStart bestSize = Inr q"
        "if \<exists>k. i + 1 \<le> k \<and> free_run mem k sz
         then i + 1 \<le> q \<and> free_run mem q sz \<and> (\<forall>k. i + 1 \<le> k \<and> free_run mem k sz \<longrightarrow> q \<le> k)
         else q = - 1"
        using ih by blast
      have "if \<exists>k. i \<le> k \<and> free_run mem k sz
         then i \<le> q \<and> free_run mem q sz \<and> (\<forall>k. i \<le> k \<and> free_run mem k sz \<longrightarrow> q \<le> k)
         else q = - 1"
        using q(2) unfolding shift by (auto split: if_splits)
      then show ?thesis using eq q(1) by simp
    qed
  qed
qed

lemma length_with_cells [simp]: "length (with_cells mem i d v) = length mem"
  by (simp add: with_cells_def)

lemma nth_with_cells:
  "k < length mem \<Longrightarrow>
     with_cells mem i d v ! k = (if i \<le> int k \<and> int k < i + d then v else mem ! k)"
  by (simp add: with_cells_def)

lemma with_cells_empty: "d \<le> 0 \<Longrightarrow> with_cells mem i d v = mem"
  by (rule nth_equalityI) (simp_all add: nth_with_cells)

lemma with_cells_step:
  assumes "0 \<le> i" "i < int (length mem)" "0 < d"
  shows "with_cells (mem[nat i := v]) (i + 1) (d - 1) v = with_cells mem i d v"
proof (rule nth_equalityI)
  show "length (with_cells (mem[nat i := v]) (i + 1) (d - 1) v) = length (with_cells mem i d v)"
    by simp
next
  fix k assume "k < length (with_cells (mem[nat i := v]) (i + 1) (d - 1) v)"
  then have k: "k < length mem" by simp
  show "with_cells (mem[nat i := v]) (i + 1) (d - 1) v ! k = with_cells mem i d v ! k"
  proof (cases "k = nat i")
    case True
    then show ?thesis using k assms by (simp add: nth_with_cells)
  next
    case False
    then have "int k \<noteq> i" using assms by auto
    then show ?thesis using k False assms by (auto simp: nth_with_cells)
  qed
qed

lemma set_from_with_cells:
  assumes "i < stop \<longrightarrow> 0 \<le> i \<and> stop \<le> int (length mem)"
  shows "set_from mem i stop v = Inr (with_cells mem i (stop - i) v)"
  using assms
proof (induction mem i stop v rule: set_from.induct)
  case (1 mem i stop v)
  show ?case
  proof (cases "i < stop")
    case False
    then show ?thesis by (simp add: set_from.simps [of mem i stop v] with_cells_empty)
  next
    case True
    then have r: "0 \<le> i \<and> i < int (length mem)" using "1.prems" by simp
    have "set_from (mem[nat i := v]) (i + 1) stop v
            = Inr (with_cells (mem[nat i := v]) (i + 1) (stop - (i + 1)) v)"
      using "1.IH" [OF True r] "1.prems" True by simp
    also have "with_cells (mem[nat i := v]) (i + 1) (stop - (i + 1)) v = with_cells mem i (stop - i) v"
      using with_cells_step [of i mem "stop - i" v] r True by (simp add: algebra_simps)
    finally show ?thesis using True r by (simp add: set_from.simps [of mem i stop v])
  qed
qed

lemma set_cells_with_cells:
  assumes "0 < sz \<longrightarrow> 0 \<le> start \<and> start + sz \<le> int (length mem)"
    "INT_MIN \<le> start + sz" "start + sz \<le> INT_MAX"
  shows "set_cells mem start sz v = Inr (with_cells mem start sz v)"
  using set_from_with_cells [of start "start + sz" mem v] assms
  by (simp add: set_cells_def add_int_in_range)

lemma free_run_bounds: "free_run mem i d \<Longrightarrow> 0 \<le> i \<and> i + d \<le> int (length mem)"
  by (simp add: free_run_def)

lemma allocate_fits:
  assumes "0 \<le> d" "d \<le> int (length mem)" "int (length mem) < INT_MAX"
  shows "\<exists>s. allocate mem d = Inr (s, if s = - 1 then mem else with_cells mem s d 1)
            \<and> (if \<exists>k. free_run mem k d
                then free_run mem s d \<and> (\<forall>k. free_run mem k d \<longrightarrow> s \<le> k)
                else s = - 1)"
proof -
  have bz: "int_of_size_t (vec_size mem + 1) = int (length mem) + 1"
    using assms by (intro best_size_init)
  have nonneg: "(0 \<le> k \<and> free_run mem k d) \<longleftrightarrow> free_run mem k d" for k
    by (auto simp: free_run_def)
  obtain r where r: "best_fit mem d 0 (- 1) (int_of_size_t (vec_size mem + 1)) = Inr r"
    and spec: "if \<exists>k. 0 \<le> k \<and> free_run mem k d
                then 0 \<le> r \<and> free_run mem r d \<and> (\<forall>k. 0 \<le> k \<and> free_run mem k d \<longrightarrow> r \<le> k)
                else r = - 1"
    using best_fit_search [of 0 mem d "int_of_size_t (vec_size mem + 1)" "- 1"] assms bz by auto
  have spec': "if \<exists>k. free_run mem k d
                then free_run mem r d \<and> (\<forall>k. free_run mem k d \<longrightarrow> r \<le> k)
                else r = - 1"
    using spec unfolding nonneg by (auto split: if_splits)
  show ?thesis
  proof (cases "r = - 1")
    case True
    then have "allocate mem d = Inr (r, mem)" using r by (simp add: allocate_def)
    moreover have "\<not> free_run mem (- 1) d" by (simp add: free_run_def)
    ultimately show ?thesis using spec' True by (auto split: if_splits)
  next
    case False
    then have fr: "free_run mem r d" using spec' by (auto split: if_splits)
    have "set_cells mem r d 1 = Inr (with_cells mem r d 1)"
      using free_run_bounds [OF fr] assms INT_MIN_neg by (intro set_cells_with_cells) simp_all
    then have "allocate mem d = Inr (r, with_cells mem r d 1)"
      using r False by (simp add: allocate_def)
    then show ?thesis using spec' False by auto
  qed
qed

lemma best_fit_negative:
  assumes "sz < 0" "best_fit mem sz i bestStart bestSize = Inr r"
  shows "r = bestStart"
  using assms
proof (induction mem sz i bestStart bestSize rule: best_fit.induct)
  case (1 mem sz i bestStart bestSize)
  have sc: "scan mem i sz 0 = Inr 0" using "1.prems" by (simp add: scan.simps [of mem i sz 0])
  show ?case
  proof (cases "size_t_of_int i \<le> vec_size mem - size_t_of_int sz")
    case False
    then show ?thesis using "1.prems" by (simp add: best_fit.simps [of mem sz i])
  next
    case True
    show ?thesis
    proof (cases "add_int i 1")
      case (Inl e)
      then show ?thesis using True sc "1.prems" by (simp add: best_fit.simps [of mem sz i])
    next
      case (Inr i')
      have f: "\<not> (0 = sz \<and> sz < bestSize)" using "1.prems" by simp
      have "best_fit mem sz i' bestStart bestSize = Inr r"
        using best_fit_step (2) [OF True sc Inr f] "1.prems" by simp
      then show ?thesis using "1.IH" (2) [OF True sc Inr f] "1.prems" by simp
    qed
  qed
qed

lemma with_cells_restore:
  assumes "free_run mem s d" "0 \<le> d"
  shows "with_cells (with_cells mem s d 1) s d 0 = mem"
proof (rule nth_equalityI)
  show "length (with_cells (with_cells mem s d 1) s d 0) = length mem" by simp
next
  fix k assume "k < length (with_cells (with_cells mem s d 1) s d 0)"
  then have k: "k < length mem" by simp
  have b: "0 \<le> s" "s + d \<le> int (length mem)" using free_run_bounds [OF assms(1)] by simp_all
  have fr: "\<forall>q. 0 \<le> q \<and> q < d \<longrightarrow> mem ! nat (s + q) = 0"
    using free_run_iff [of s d mem] assms b by simp
  show "with_cells (with_cells mem s d 1) s d 0 ! k = mem ! k"
  proof (cases "s \<le> int k \<and> int k < s + d")
    case False
    then show ?thesis using k by (auto simp: nth_with_cells)
  next
    case True
    then have "mem ! nat (s + (int k - s)) = 0" using fr by (intro fr [rule_format]) simp
    then have "mem ! k = 0" by simp
    then show ?thesis using k True by (simp add: nth_with_cells)
  qed
qed

lemma dealloc_restores:
  assumes "int (length mem) < INT_MAX" "INT_MIN \<le> d" "d \<le> INT_MAX"
    "allocate mem d = Inr (s, mem')" "s \<noteq> - 1"
  shows "deallocate mem' s d = Inr mem"
proof -
  consider "d < 0" | "0 \<le> d \<and> d \<le> int (length mem)" | "int (length mem) < d" by linarith
  then show ?thesis
  proof cases
    case 1
    have "\<exists>r. best_fit mem d 0 (- 1) (int_of_size_t (vec_size mem + 1)) = Inr r \<and> r = s"
      using assms(4) by (auto simp: allocate_def split: sum.splits if_splits)
    then have "s = - 1" using best_fit_negative [OF 1] by blast
    then show ?thesis using assms by simp
  next
    case 2
    obtain s0 where a: "allocate mem d = Inr (s0, if s0 = - 1 then mem else with_cells mem s0 d 1)"
      and sp: "if \<exists>k. free_run mem k d
                then free_run mem s0 d \<and> (\<forall>k. free_run mem k d \<longrightarrow> s0 \<le> k)
                else s0 = - 1"
      using allocate_fits [of d mem] 2 assms by blast
    have eq: "s0 = s" "mem' = with_cells mem s d 1" using a assms by auto
    have fr: "free_run mem s d" using sp eq assms by (auto split: if_splits)
    have b: "0 \<le> s" "s + d \<le> int (length mem)" using free_run_bounds [OF fr] by simp_all
    have "set_cells mem' s d 0 = Inr (with_cells mem' s d 0)"
      using b assms INT_MIN_neg eq by (intro set_cells_with_cells) simp_all
    then show ?thesis using eq fr 2 by (simp add: deallocate_def with_cells_restore)
  next
    case 3
    then have "allocate mem d = Inl OutOfBounds" using assms by (intro allocate_oversized) simp_all
    then show ?thesis using assms by simp
  qed
qed

section \<open>Properties of the simulation engine\<close>

lemma fold_free_count:
  "fold (\<lambda>m c. if m = 0 then c + 1 else c) mem (c0 :: int)
     = c0 + int (length (filter (\<lambda>m. m = 0) mem))"
  by (induction mem arbitrary: c0) simp_all

lemma isSafe_iff: "isSafe mem d \<longleftrightarrow> d \<le> int (length (filter (\<lambda>m. m = 0) mem))"
  by (simp add: isSafe_def fold_free_count)

lemma allocate_none_unchanged: "allocate mem d = Inr (- 1, mem') \<Longrightarrow> mem' = mem"
  by (auto simp: allocate_def split: sum.splits if_splits)

lemma admit_mset:
  "admit t ps rq = (inc, rq') \<Longrightarrow> mset inc + mset rq' = mset ps + mset rq"
proof (induction ps arbitrary: rq inc rq')
  case Nil
  then show ?case by simp
next
  case (Cons p ps)
  show ?case
  proof (cases "arrivalTime p \<le> t")
    case True
    then have "admit t ps (addPlane rq p) = (inc, rq')" using Cons.prems by simp
    then have "mset inc + mset rq' = mset ps + mset (addPlane rq p)" by (rule Cons.IH)
    then show ?thesis by (simp add: addPlane_def)
  next
    case False
    obtain inc0 rq0 where r: "admit t ps rq = (inc0, rq0)" by (cases "admit t ps rq")
    then have "inc = p # inc0" "rq' = rq0" using Cons.prems False by simp_all
    moreover have "mset inc0 + mset rq0 = mset ps + mset rq" using r by (rule Cons.IH)
    ultimately show ?thesis by simp
  qed
qed

lemma admit_filter:
  "admit t ps rq = (filter (\<lambda>p. \<not> arrivalTime p \<le> t) ps, rq @ filter (\<lambda>p. arrivalTime p \<le> t) ps)"
  by (induction ps arbitrary: rq) (simp_all add: addPlane_def)

lemma getNextPlane_Nil: "getNextPlane [] = (mkPlane (- 1) 0 0 0 0 False, [])"
  by (simp add: getNextPlane_def)

lemma getNextPlane_mset:
  assumes "rq \<noteq> []" "getNextPlane rq = (p, rest)"
  shows "mset rq = add_mset p (mset rest)"
proof -
  obtain q qs where s: "sort_by compare rq = q # qs"
    using assms sort_by_Nil_iff [of compare rq] by (cases "sort_by compare rq") auto
  then have "p = q" "rest = qs" using assms by (simp_all add: getNextPlane_def)
  then show ?thesis using mset_sort_by [of compare rq] s by simp
qed

lemma getNextPlane_real:
  assumes "getNextPlane rq = (p, rest)" "id_p p \<noteq> - 1"
  shows "rq \<noteq> []"
  using assms by (auto simp: getNextPlane_def mkPlane_def)

lemma step_idle:
  assumes "admit (time s) (incoming s) (readyQueue s) = (inc, rq)"
    "getNextPlane rq = (current, rq')" "id_p current = - 1"
  shows "step s = (case add_int (time s) 1 of
                     Inl e \<Rightarrow> Inl e
                   | Inr t \<Rightarrow> Inr (s\<lparr>incoming := inc, readyQueue := rq', time := t\<rparr>))"
  using assms by (simp add: step_def)

lemma step_unsafe:
  assumes "admit (time s) (incoming s) (readyQueue s) = (inc, rq)"
    "getNextPlane rq = (current, rq')" "id_p current \<noteq> - 1"
    "\<not> isSafe (memory s) (size_p current)"
  shows "step s = (case add_int (time s) 1 of
                     Inl e \<Rightarrow> Inl e
                   | Inr t \<Rightarrow> Inr (s\<lparr>incoming := inc, readyQueue := addPlane rq' current, time := t\<rparr>))"
  using assms by (simp add: step_def)

lemma step_no_space:
  assumes "admit (time s) (incoming s) (readyQueue s) = (inc, rq)"
    "getNextPlane rq = (current, rq')" "id_p current \<noteq> - 1"
    "isSafe (memory s) (size_p current)"
    "allocate (memory s) (size_p current) = Inr (- 1, mem)"
  shows "step s = (case add_int (time s) 1 of
                     Inl e \<Rightarrow> Inl e
                   | Inr t \<Rightarrow> Inr (s\<lparr>incoming := inc, readyQueue := addPlane rq' current,
                                    memory := mem, time := t\<rparr>))"
  using assms by (simp add: step_def)

lemma step_landing:
  assumes "admit (time s) (incoming s) (readyQueue s) = (inc, rq)"
    "getNextPlane rq = (current, rq')" "id_p current \<noteq> - 1"
    "isSafe (memory s) (size_p current)"
    "allocate (memory s) (size_p current) = Inr (memIndex, mem)" "memIndex \<noteq> - 1"
  shows "step s = (case add_int (time s) (landingTime current) of
                     Inl e \<Rightarrow> Inl e
                   | Inr t \<Rightarrow>
                       (case deallocate mem memIndex (size_p current) of
                          Inl e \<Rightarrow> Inl e
                        | Inr mem' \<Rightarrow>
                            Inr (s\<lparr>incoming := inc, readyQueue := rq', memory := mem', time := t,
                                   gantt := gantt s @ [(id_p current, landingTime current)]\<rparr>)))"
  using assms by (simp add: step_def)

lemma add_int_Inr: "add_int a b = Inr c \<Longrightarrow> c = a + b \<and> INT_MIN \<le> c \<and> c \<le> INT_MAX"
  by (auto simp: add_int_def split: if_splits)

text \<open>The four ways through the loop body.\<close>

lemma step_cases [consumes 1, case_names idle unsafe no_space landing]:
  assumes "step s = Inr s'"
  obtains
    (idle) inc rq current rq' where
      "admit (time s) (incoming s) (readyQueue s) = (inc, rq)" "getNextPlane rq = (current, rq')"
      "id_p current = - 1" "time s + 1 \<le> INT_MAX"
      "s' = s\<lparr>incoming := inc, readyQueue := rq', time := time s + 1\<rparr>"
  | (unsafe) inc rq current rq' where
      "admit (time s) (incoming s) (readyQueue s) = (inc, rq)" "getNextPlane rq = (current, rq')"
      "id_p current \<noteq> - 1" "\<not> isSafe (memory s) (size_p current)" "time s + 1 \<le> INT_MAX"
      "s' = s\<lparr>incoming := inc, readyQueue := addPlane rq' current, time := time s + 1\<rparr>"
  | (no_space) inc rq current rq' where
      "admit (time s) (incoming s) (readyQueue s) = (inc, rq)" "getNextPlane rq = (current, rq')"
      "id_p current \<noteq> - 1" "isSafe (memory s) (size_p current)"
      "allocate (memory s) (size_p current) = Inr (- 1, memory s)" "time s + 1 \<le> INT_MAX"
      "s' = s\<lparr>incoming := inc, readyQueue := addPlane rq' current, time := time s + 1\<rparr>"
  | (landing) inc rq current rq' memIndex mem mem' where
      "admit (time s) (incoming s) (readyQueue s) = (inc, rq)" "getNextPlane rq = (current, rq')"
      "id_p current \<noteq> - 1" "isSafe (memory s) (size_p current)"
      "allocate (memory s) (size_p current) = Inr (memIndex, mem)" "memIndex \<noteq> - 1"
      "deallocate mem memIndex (size_p current) = Inr mem'"
      "s' = s\<lparr>incoming := inc, readyQueue := rq', memory := mem',
               time := time s + landingTime current,
               gantt := gantt s @ [(id_p current, landingTime current)]\<rparr>"
proof -
  obtain inc rq where a: "admit (time s) (incoming s) (readyQueue s) = (inc, rq)"
    by (cases "admit (time s) (incoming s) (readyQueue s)")
  obtain current rq' where g: "getNextPlane rq = (current, rq')"
    by (cases "getNextPlane rq")
  show ?thesis
  proof (cases "id_p current = - 1")
    case True
    from assms step_idle [OF a g True]
    obtain t where "add_int (time s) 1 = Inr t" "s' = s\<lparr>incoming := inc, readyQueue := rq', time := t\<rparr>"
      by (auto split: sum.splits)
    then show ?thesis using idle [OF a g True] add_int_Inr by blast
  next
    case real: False
    show ?thesis
    proof (cases "isSafe (memory s) (size_p current)")
      case False
      from assms step_unsafe [OF a g real False]
      obtain t where "add_int (time s) 1 = Inr t"
        "s' = s\<lparr>incoming := inc, readyQueue := addPlane rq' current, time := t\<rparr>"
        by (auto split: sum.splits)
      then show ?thesis using unsafe [OF a g real False] add_int_Inr by blast
    next
      case safe: True
      obtain memIndex mem where al: "allocate (memory s) (size_p current) = Inr (memIndex, mem)"
        using assms a g real safe by (auto simp: step_def split: sum.splits)
      show ?thesis
      proof (cases "memIndex = - 1")
        case True
        then have al': "allocate (memory s) (size_p current) = Inr (- 1, mem)" using al by simp
        then have m: "mem = memory s" by (rule allocate_none_unchanged)
        from assms step_no_space [OF a g real safe al']
        obtain t where "add_int (time s) 1 = Inr t"
          "s' = s\<lparr>incoming := inc, readyQueue := addPlane rq' current, memory := mem, time := t\<rparr>"
          by (auto split: sum.splits)
        then have "add_int (time s) 1 = Inr t"
          "s' = s\<lparr>incoming := inc, readyQueue := addPlane rq' current, time := t\<rparr>"
          using m by simp_all
        then show ?thesis using no_space [OF a g real safe] al' m add_int_Inr by blast
      next
        case False
        from assms step_landing [OF a g real safe al False]
        obtain t mem' where "add_int (time s) (landingTime current) = Inr t"
          "deallocate mem memIndex (size_p current) = Inr mem'"
          "s' = s\<lparr>incoming := inc, readyQueue := rq', memory := mem', time := t,
                   gantt := gantt s @ [(id_p current, landingTime current)]\<rparr>"
          by (auto split: sum.splits)
        then show ?thesis using landing [OF a g real safe al False] add_int_Inr by blast
      qed
    qed
  qed
qed

lemma isSafe_le_length:
  assumes "isSafe mem d"
  shows "d \<le> int (length mem)"
proof -
  have "d \<le> int (length (filter (\<lambda>m. m = 0) mem))" using assms by (simp add: isSafe_iff)
  also have "\<dots> \<le> int (length mem)" by (simp only: of_nat_le_iff length_filter_le)
  finally show ?thesis .
qed

lemma allocate_negative:
  assumes "d < 0" "allocate mem d = Inr (s, mem')"
  shows "s = - 1"
proof -
  have "\<exists>r. best_fit mem d 0 (- 1) (int_of_size_t (vec_size mem + 1)) = Inr r \<and> r = s"
    using assms(2) by (auto simp: allocate_def split: sum.splits if_splits)
  then show ?thesis using best_fit_negative [OF assms(1)] by blast
qed

text \<open>What a successful allocation in the engine looks like.\<close>

lemma allocate_after_isSafe:
  assumes "int (length mem) < INT_MAX" "isSafe mem d" "allocate mem d = Inr (s, mem')" "s \<noteq> - 1"
  shows "0 \<le> d" and "free_run mem s d" and "mem' = with_cells mem s d 1"
    and "deallocate mem' s d = Inr mem"
proof -
  have up: "d \<le> int (length mem)" using assms(2) by (rule isSafe_le_length)
  have lo: "0 \<le> d" using allocate_negative [OF _ assms(3)] assms(4) by fastforce
  have r: "INT_MIN \<le> d" "d \<le> INT_MAX" using lo up assms(1) INT_MIN_neg by simp_all
  obtain s0 where a: "allocate mem d = Inr (s0, if s0 = - 1 then mem else with_cells mem s0 d 1)"
      and sp: "if \<exists>k. free_run mem k d
                then free_run mem s0 d \<and> (\<forall>k. free_run mem k d \<longrightarrow> s0 \<le> k)
                else s0 = - 1"
    using allocate_fits [OF lo up assms(1)] by blast
  have eq: "s0 = s" "mem' = with_cells mem s d 1" using a assms by auto
  show "0 \<le> d" by (rule lo)
  show "free_run mem s d" using sp eq assms by (auto split: if_splits)
  show "mem' = with_cells mem s d 1" by (rule eq(2))
  show "deallocate mem' s d = Inr mem" by (rule dealloc_restores [OF assms(1) r assms(3) assms(4)])
qed

lemma step_memory:
  assumes "int (length (memory s)) < INT_MAX" "step s = Inr s'"
  shows "memory s' = memory s"
  using assms(2)
proof (cases rule: step_cases)
  case (landing inc rq current rq' memIndex mem mem')
  have "deallocate mem memIndex (size_p current) = Inr (memory s)"
    by (rule allocate_after_isSafe(4) [OF assms(1) landing(4) landing(5) landing(6)])
  then have "mem' = memory s" using landing(7) by simp
  then show ?thesis using landing(8) by simp
qed simp_all

lemma MemoryManager_20: "MemoryManager 20 = replicate 20 0"
  by (simp add: MemoryManager_def)

lemma reachable_memory: "reachable planes s \<Longrightarrow> memory s = MemoryManager 20"
proof (induction rule: reachable.induct)
  case reachable_init
  show ?case by (simp add: init_def)
next
  case (reachable_step s s')
  have "int (length (memory s)) < INT_MAX"
    using reachable_step.IH by (simp add: MemoryManager_20 INT_MAX_def)
  then show ?case using step_memory reachable_step by metis
qed

lemma admit_length:
  "admit t ps rq = (inc, rq') \<Longrightarrow> length inc + length rq' = length ps + length rq"
  using admit_mset [of t ps rq inc rq'] by (metis length_append mset_append size_mset)

lemma getNextPlane_length:
  assumes "getNextPlane rq = (p, rest)"
  shows "length rest \<le> length rq" and "rq \<noteq> [] \<Longrightarrow> length rest + 1 = length rq"
proof -
  show "rq \<noteq> [] \<Longrightarrow> length rest + 1 = length rq"
    using getNextPlane_mset [OF _ assms] by (metis Suc_eq_plus1 size_add_mset size_mset)
  then show "length rest \<le> length rq" using assms by (cases "rq = []") (auto simp: getNextPlane_def)
qed

lemma step_decreases:
  assumes "step s = Inr s'"
  shows "(s', s) \<in> measures [\<lambda>s. length (incoming s) + length (readyQueue s),
                               \<lambda>s. nat (INT_MAX - time s)]"
  using assms
proof (cases rule: step_cases)
  case (idle inc rq current rq')
  have "length inc + length rq' \<le> length (incoming s) + length (readyQueue s)"
    using admit_length [OF idle(1)] getNextPlane_length(1) [OF idle(2)] by simp
  then show ?thesis using idle by auto
next
  case (unsafe inc rq current rq')
  have "rq \<noteq> []" using getNextPlane_real unsafe by blast
  then have "length inc + (length rq' + 1) = length (incoming s) + length (readyQueue s)"
    using admit_length [OF unsafe(1)] getNextPlane_length(2) [OF unsafe(2)] by simp
  then show ?thesis using unsafe by (auto simp: addPlane_def)
next
  case (no_space inc rq current rq')
  have "rq \<noteq> []" using getNextPlane_real no_space by blast
  then have "length inc + (length rq' + 1) = length (incoming s) + length (readyQueue s)"
    using admit_length [OF no_space(1)] getNextPlane_length(2) [OF no_space(2)] by simp
  then show ?thesis using no_space by (auto simp: addPlane_def)
next
  case (landing inc rq current rq' memIndex mem mem')
  have "rq \<noteq> []" using getNextPlane_real landing by blast
  then have "length inc + (length rq' + 1) = length (incoming s) + length (readyQueue s)"
    using admit_length [OF landing(1)] getNextPlane_length(2) [OF landing(2)] by simp
  then show ?thesis using landing by auto
qed

text \<open>
  The loop ends: a pass through its body either removes a plane from the two queues, or
  leaves their sizes and moves the clock one unit towards \<open>INT_MAX\<close>.
\<close>

termination sim_loop
proof (relation "measures [\<lambda>s. length (incoming s) + length (readyQueue s),
                           \<lambda>s. nat (INT_MAX - time s)]")
  show "wf (measures [\<lambda>s. length (incoming s) + length (readyQueue s),
                      \<lambda>s. nat (INT_MAX - time s)])"
    by simp
next
  fix s s'
  assume "pending s" "step s = Inr s'"
  then show "(s', s) \<in> measures [\<lambda>s. length (incoming s) + length (readyQueue s),
                                  \<lambda>s. nat (INT_MAX - time s)]"
    by (intro step_decreases)
qed

declare sim_loop.simps [simp del]

lemma best_fit_negative_defined:
  assumes "0 \<le> i" "i \<le> int (length mem) - sz + 1" "sz < 0" "int (length mem) - sz < INT_MAX"
  shows "best_fit mem sz i bestStart bestSize = Inr bestStart"
  using assms
proof (induction mem sz i bestStart bestSize rule: best_fit.induct)
  case (1 mem sz i bestStart bestSize)
  have c: "(size_t_of_int i \<le> vec_size mem - size_t_of_int sz) = (i \<le> int (length mem) - sz)"
    using "1.prems" by (intro bound_in_range) simp_all
  show ?case
  proof (cases "i \<le> int (length mem) - sz")
    case False
    then show ?thesis using c by (simp add: best_fit.simps [of mem sz i])
  next
    case True
    then have c': "size_t_of_int i \<le> vec_size mem - size_t_of_int sz" using c by simp
    have r: "scan mem i sz 0 = Inr 0" using "1.prems" by (simp add: scan.simps [of mem i sz 0])
    have a: "add_int i 1 = Inr (i + 1)"
      using "1.prems" True INT_MIN_neg by (intro add_int_in_range) simp_all
    have f: "\<not> (0 = sz \<and> sz < bestSize)" using "1.prems" by simp
    have "best_fit mem sz (i + 1) bestStart bestSize = Inr bestStart"
      using "1.IH" (2) [OF c' r a f] "1.prems" True by simp
    then show ?thesis using best_fit_step (2) [OF c' r a f] by simp
  qed
qed

lemma allocate_negative_defined:
  assumes "d < 0" "int (length mem) - d < INT_MAX"
  shows "allocate mem d = Inr (- 1, mem)"
  using best_fit_negative_defined [of 0 mem d] assms by (simp add: allocate_def)

lemma getNextPlane_member:
  assumes "rq \<noteq> []" "getNextPlane rq = (p, rest)"
  shows "p \<in> set rq"
  using getNextPlane_mset [OF assms] by (metis set_mset_mset union_single_eq_member)

lemma admit_set:
  assumes "admit t ps rq = (inc, rq')"
  shows "set rq' \<subseteq> set (ps @ rq)"
proof -
  have "set_mset (mset inc + mset rq') = set_mset (mset ps + mset rq)"
    using admit_mset [OF assms] by simp
  then show ?thesis by auto
qed

lemma step_defined:
  assumes "int (length (memory s)) < INT_MAX" "no_overflow s"
  shows "\<exists>s'. step s = Inr s'"
proof -
  obtain inc rq where a: "admit (time s) (incoming s) (readyQueue s) = (inc, rq)"
    by (cases "admit (time s) (incoming s) (readyQueue s)")
  obtain current rq' where g: "getNextPlane rq = (current, rq')"
    by (cases "getNextPlane rq")
  have t1: "add_int (time s) 1 = Inr (time s + 1)"
    using assms(2) by (intro add_int_in_range) (simp_all add: no_overflow_def)
  show ?thesis
  proof (cases "id_p current = - 1")
    case True
    then show ?thesis using step_idle [OF a g True] t1 by simp
  next
    case real: False
    have "current \<in> set rq" using getNextPlane_member getNextPlane_real g real by blast
    then have "current \<in> set (incoming s @ readyQueue s)" using admit_set [OF a] by blast
    then have cur: "INT_MIN \<le> time s + landingTime current" "time s + landingTime current \<le> INT_MAX"
      "int (length (memory s)) - size_p current < INT_MAX"
      using assms(2) by (auto simp: no_overflow_def list_all_iff)
    have tl: "add_int (time s) (landingTime current) = Inr (time s + landingTime current)"
      using cur by (intro add_int_in_range)
    show ?thesis
    proof (cases "isSafe (memory s) (size_p current)")
      case False
      then show ?thesis using step_unsafe [OF a g real False] t1 by simp
    next
      case safe: True
      have "\<exists>memIndex mem. allocate (memory s) (size_p current) = Inr (memIndex, mem)"
      proof (cases "size_p current < 0")
        case True
        then show ?thesis using allocate_negative_defined cur(3) by blast
      next
        case False
        then show ?thesis
          using allocate_fits [of "size_p current" "memory s"] isSafe_le_length [OF safe] assms(1)
          by auto
      qed
      then obtain memIndex mem where al: "allocate (memory s) (size_p current) = Inr (memIndex, mem)"
        by blast
      show ?thesis
      proof (cases "memIndex = - 1")
        case True
        then show ?thesis using step_no_space [OF a g real safe] al t1 by simp
      next
        case False
        have "deallocate mem memIndex (size_p current) = Inr (memory s)"
          by (rule allocate_after_isSafe(4) [OF assms(1) safe al False])
        then show ?thesis using step_landing [OF a g real safe al False] tl by simp
      qed
    qed
  qed
qed

lemma isSafe_empty_pool: "isSafe (replicate n 0) d \<longleftrightarrow> d \<le> int n"
  by (simp add: isSafe_iff)

lemma free_run_empty_pool: "0 \<le> d \<Longrightarrow> d \<le> int n \<Longrightarrow> free_run (replicate n 0) 0 d"
  by (simp add: free_run_def list_all_iff)

lemma allocate_empty_pool:
  assumes "0 \<le> d" "d \<le> int n" "int n < INT_MAX"
  shows "allocate (replicate n 0) d = Inr (0, with_cells (replicate n 0) 0 d 1)"
proof -
  let ?M = "replicate n (0 :: int)"
  obtain s where a: "allocate ?M d = Inr (s, if s = - 1 then ?M else with_cells ?M s d 1)"
    and sp: "if \<exists>k. free_run ?M k d
             then free_run ?M s d \<and> (\<forall>k. free_run ?M k d \<longrightarrow> s \<le> k)
             else s = - 1"
    using allocate_fits [of d ?M] assms by auto
  have f0: "free_run ?M 0 d" using assms by (intro free_run_empty_pool)
  then have "free_run ?M s d" "s \<le> 0" using sp by (auto split: if_splits)
  then have "s = 0" using free_run_bounds [of ?M s d] by simp
  then show ?thesis using a by simp
qed

section \<open>The claims of the specification\<close>

text \<open>
  Claim C1. On a non-empty ready queue \<^verbatim>\<open>getNextPlane\<close> returns a member of the queue
  that no member precedes in the three-key order (emergency first, then lower fuel level,
  then shorter landing time), and the queue left behind is the old one with exactly that
  one plane removed: every other plane is still there, with all its fields.
\<close>

theorem getNextPlane_minimal:
  assumes "rq \<noteq> []"
  shows "case getNextPlane rq of (p, rest) \<Rightarrow>
           p \<in> set rq
         \<and> (\<forall>x \<in> set rq. \<not> precedes x p)
         \<and> mset rq = add_mset p (mset rest)
         \<and> length rest + 1 = length rq"
proof -
  obtain p rest where s: "sort_by compare rq = p # rest"
    using assms sort_by_Nil_iff [of compare rq] by (cases "sort_by compare rq") auto
  have m: "mset rq = add_mset p (mset rest)"
    using mset_sort_by [of compare rq] s by simp
  then have mem: "p \<in> set rq"
    by (metis set_mset_mset union_single_eq_member)
  have hm: "\<forall>x \<in> set rest. \<not> precedes x p"
    using ordered_sort_by [of rq] s by (simp add: ordered_def)
  have self: "\<not> precedes p p" by (simp add: precedes_def)
  have "set rq = insert p (set rest)"
    using m by (metis set_mset_add_mset_insert set_mset_mset)
  then have min: "\<forall>x \<in> set rq. \<not> precedes x p" using hm self by simp
  have len: "length rest + 1 = length rq"
    using m by (metis Suc_eq_plus1 size_add_mset size_mset)
  show ?thesis using assms s mem min m len by (simp add: getNextPlane_def)
qed

theorem getNextPlane_minimal_witness:
  "[mkPlane 1 0 5 4 3 False, mkPlane 6 1 9 2 7 True, mkPlane 2 1 4 3 2 False] \<noteq> []
   \<and> getNextPlane [mkPlane 1 0 5 4 3 False, mkPlane 6 1 9 2 7 True, mkPlane 2 1 4 3 2 False]
       = (mkPlane 6 1 9 2 7 True, [mkPlane 2 1 4 3 2 False, mkPlane 1 0 5 4 3 False])
   \<and> \<not> precedes (mkPlane 1 0 5 4 3 False) (mkPlane 6 1 9 2 7 True)
   \<and> \<not> precedes (mkPlane 2 1 4 3 2 False) (mkPlane 6 1 9 2 7 True)"
  using getNextPlane_minimal [of "[mkPlane 1 0 5 4 3 False, mkPlane 6 1 9 2 7 True, mkPlane 2 1 4 3 2 False]"]
  by (simp add: getNextPlane_def sort_by_def linear_insert.simps compare_def mkPlane_def)

text \<open>
  Claim C2, on the input the claim names: a pool of capacity 5 and the demand 8. The claim
  wants \<^verbatim>\<open>allocate\<close> to return \<open>- 1\<close> without leaving the pool. In the source the bound
  \<^verbatim>\<open>memory.size() - size\<close> is computed in \<^verbatim>\<open>size_t\<close> and wraps around to \<open>2 ^ 64 - 3\<close>, so the
  loop is entered with \<open>i = 0\<close>, and its scan of the five free cells goes on to read
  \<^verbatim>\<open>memory[5]\<close>, outside the vector.
\<close>

theorem allocate_oversized_reads_out_of_bounds:
  "allocate (MemoryManager 5) 8 = Inl OutOfBounds
   \<and> vec_size (MemoryManager 5) - size_t_of_int 8 = 18446744073709551613
   \<and> scan (MemoryManager 5) 0 8 0 = Inl OutOfBounds
   \<and> at (MemoryManager 5) 5 = Inl OutOfBounds"
proof -
  have m: "MemoryManager 5 = [0, 0, 0, 0, 0]" by (simp add: MemoryManager_def numeral_eq_Suc)
  have "allocate (MemoryManager 5) 8 = Inl OutOfBounds"
    by (rule allocate_oversized) (simp_all add: m INT_MAX_def)
  moreover have "vec_size (MemoryManager 5) - size_t_of_int 8 = 18446744073709551613"
    by (simp add: m vec_size_def size_t_of_int_def)
  moreover have "scan (MemoryManager 5) 0 8 0 = Inl OutOfBounds"
    unfolding m by code_simp
  moreover have "at (MemoryManager 5) 5 = Inl OutOfBounds"
    by (simp add: m at_def)
  ultimately show ?thesis by simp
qed

text \<open>
  Claim C3, on the single plane with id 1, arrival time 2 and landing time 3. The claim
  wants the chart to show the simulated times of the landing. The engine waits two units
  for the plane and lands it from time 2 to time 5, but what it stores is the pair
  (id, landing time), and the chart is rebuilt from a clock that starts at 0 and only adds
  landing times: the row printed is \<open>(1, 0, 3)\<close>.
\<close>

theorem gantt_report_ignores_waiting_time:
  "step (init [mkPlane 1 2 5 4 3 False])
     = Inr \<lparr>incoming = [mkPlane 1 2 5 4 3 False], readyQueue = [], memory = replicate 20 0,
            time = 1, gantt = []\<rparr>
   \<and> step \<lparr>incoming = [mkPlane 1 2 5 4 3 False], readyQueue = [], memory = replicate 20 0,
            time = 1, gantt = []\<rparr>
     = Inr \<lparr>incoming = [mkPlane 1 2 5 4 3 False], readyQueue = [], memory = replicate 20 0,
            time = 2, gantt = []\<rparr>
   \<and> step \<lparr>incoming = [mkPlane 1 2 5 4 3 False], readyQueue = [], memory = replicate 20 0,
            time = 2, gantt = []\<rparr>
     = Inr \<lparr>incoming = [], readyQueue = [], memory = replicate 20 0, time = 5, gantt = [(1, 3)]\<rparr>
   \<and> sim_loop (init [mkPlane 1 2 5 4 3 False])
     = Inr \<lparr>incoming = [], readyQueue = [], memory = replicate 20 0, time = 5, gantt = [(1, 3)]\<rparr>
   \<and> simulate [mkPlane 1 2 5 4 3 False] = Inr [(1, 0, 3)]"
  by code_simp

text \<open>
  Claim C4. In a state that a run reaches, with the loop condition true, a pass through
  the loop body that ends in a state \<open>s'\<close> changes the state, and it either lands a plane
  (its pair is appended to the chart data, and the planes in the two queues are the old
  ones without it) or leaves the chart data and the airspace alone, adds exactly 1 to the
  clock and adds no plane to the queues. The pass does end in a state when no \<^verbatim>\<open>int\<close>
  overflows.
\<close>

theorem loop_iteration_progress:
  assumes "reachable planes s" "pending s"
  shows "(\<forall>s'. step s = Inr s' \<longrightarrow>
            s' \<noteq> s
          \<and> ((\<exists>current. id_p current \<noteq> - 1
                 \<and> gantt s' = gantt s @ [(id_p current, landingTime current)]
                 \<and> time s' = time s + landingTime current
                 \<and> mset (incoming s) + mset (readyQueue s)
                     = add_mset current (mset (incoming s') + mset (readyQueue s')))
              \<or> (gantt s' = gantt s \<and> time s' = time s + 1 \<and> memory s' = memory s
                  \<and> mset (incoming s') + mset (readyQueue s')
                      \<subseteq># mset (incoming s) + mset (readyQueue s))))
       \<and> (no_overflow s \<longrightarrow> (\<exists>s'. step s = Inr s'))"
proof (intro conjI allI impI)
  have m: "memory s = replicate 20 0"
    using reachable_memory [OF assms(1)] by (simp add: MemoryManager_20)
  then have small: "int (length (memory s)) < INT_MAX" by (simp add: INT_MAX_def)
  show "\<exists>s'. step s = Inr s'" if "no_overflow s"
    using step_defined [OF small that] .
  fix s' assume st: "step s = Inr s'"
  have "s' \<noteq> s
      \<and> ((\<exists>current. id_p current \<noteq> - 1
             \<and> gantt s' = gantt s @ [(id_p current, landingTime current)]
             \<and> time s' = time s + landingTime current
             \<and> mset (incoming s) + mset (readyQueue s)
                 = add_mset current (mset (incoming s') + mset (readyQueue s')))
          \<or> (gantt s' = gantt s \<and> time s' = time s + 1 \<and> memory s' = memory s
              \<and> mset (incoming s') + mset (readyQueue s')
                  \<subseteq># mset (incoming s) + mset (readyQueue s)))"
    using st
  proof (cases rule: step_cases)
    case (idle inc rq current rq')
    have "mset rq' \<subseteq># mset rq"
    proof (cases "rq = []")
      case True
      then show ?thesis using idle(2) by (simp add: getNextPlane_def)
    next
      case False
      then show ?thesis using getNextPlane_mset [OF False idle(2)] by simp
    qed
    then have "mset inc + mset rq' \<subseteq># mset (incoming s) + mset (readyQueue s)"
      using admit_mset [OF idle(1)] by (metis subset_mset.add_left_mono)
    then have "mset (incoming s') + mset (readyQueue s')
                 \<subseteq># mset (incoming s) + mset (readyQueue s)"
      using idle(5) by simp
    moreover have "time s' = time s + 1" "gantt s' = gantt s" "memory s' = memory s"
      using idle(5) by simp_all
    moreover from this have "s' \<noteq> s" by auto
    ultimately show ?thesis by blast
  next
    case (unsafe inc rq current rq')
    have "rq \<noteq> []" using getNextPlane_real unsafe by blast
    then have "mset inc + mset (addPlane rq' current) = mset (incoming s) + mset (readyQueue s)"
      using admit_mset [OF unsafe(1)] getNextPlane_mset [OF _ unsafe(2)] by (simp add: addPlane_def)
    then have "mset (incoming s') + mset (readyQueue s')
                 \<subseteq># mset (incoming s) + mset (readyQueue s)"
      using unsafe(6) by simp
    moreover have "time s' = time s + 1" "gantt s' = gantt s" "memory s' = memory s"
      using unsafe(6) by simp_all
    moreover from this have "s' \<noteq> s" by auto
    ultimately show ?thesis by blast
  next
    case (no_space inc rq current rq')
    have "rq \<noteq> []" using getNextPlane_real no_space by blast
    then have "mset inc + mset (addPlane rq' current) = mset (incoming s) + mset (readyQueue s)"
      using admit_mset [OF no_space(1)] getNextPlane_mset [OF _ no_space(2)]
      by (simp add: addPlane_def)
    then have "mset (incoming s') + mset (readyQueue s')
                 \<subseteq># mset (incoming s) + mset (readyQueue s)"
      using no_space(7) by simp
    moreover have "time s' = time s + 1" "gantt s' = gantt s" "memory s' = memory s"
      using no_space(7) by simp_all
    moreover from this have "s' \<noteq> s" by auto
    ultimately show ?thesis by blast
  next
    case (landing inc rq current rq' memIndex mem mem')
    have "rq \<noteq> []" using getNextPlane_real landing by blast
    then have "mset (incoming s) + mset (readyQueue s) = add_mset current (mset inc + mset rq')"
      using admit_mset [OF landing(1)] getNextPlane_mset [OF _ landing(2)] by simp
    then have "mset (incoming s) + mset (readyQueue s)
                 = add_mset current (mset (incoming s') + mset (readyQueue s'))"
      using landing(8) by simp
    moreover have g: "gantt s' = gantt s @ [(id_p current, landingTime current)]"
      and "time s' = time s + landingTime current"
      using landing(8) by simp_all
    moreover from g have "s' \<noteq> s" by auto
    ultimately show ?thesis using landing(3) by blast
  qed
  then show "s' \<noteq> s"
    and "(\<exists>current. id_p current \<noteq> - 1
             \<and> gantt s' = gantt s @ [(id_p current, landingTime current)]
             \<and> time s' = time s + landingTime current
             \<and> mset (incoming s) + mset (readyQueue s)
                 = add_mset current (mset (incoming s') + mset (readyQueue s')))
          \<or> (gantt s' = gantt s \<and> time s' = time s + 1 \<and> memory s' = memory s
              \<and> mset (incoming s') + mset (readyQueue s')
                  \<subseteq># mset (incoming s) + mset (readyQueue s))"
    by blast+
qed

theorem loop_iteration_progress_witness:
  "reachable [mkPlane 1 0 5 4 3 False] (init [mkPlane 1 0 5 4 3 False])
   \<and> pending (init [mkPlane 1 0 5 4 3 False])
   \<and> no_overflow (init [mkPlane 1 0 5 4 3 False])
   \<and> step (init [mkPlane 1 0 5 4 3 False])
       = Inr \<lparr>incoming = [], readyQueue = [], memory = replicate 20 0, time = 3, gantt = [(1, 3)]\<rparr>
   \<and> \<lparr>incoming = [], readyQueue = [], memory = replicate 20 0, time = 3, gantt = [(1, 3)]\<rparr>
       \<noteq> init [mkPlane 1 0 5 4 3 False]"
proof -
  let ?P = "[mkPlane 1 0 5 4 3 False]"
  let ?S = "\<lparr>incoming = [], readyQueue = [], memory = replicate 20 0, time = 3, gantt = [(1 :: int, 3 :: int)]\<rparr>"
  have r: "reachable ?P (init ?P)" by (rule reachable_init)
  have p: "pending (init ?P)" by code_simp
  have n: "no_overflow (init ?P)" by code_simp
  have e: "step (init ?P) = Inr ?S" by code_simp
  have "?S \<noteq> init ?P" using loop_iteration_progress [OF r p] e by blast
  then show ?thesis using r p n e by simp
qed

text \<open>
  Claim C5. For a demand \<open>d\<close> with \<open>0 < d\<close> and \<open>d\<close> at most the capacity (the capacity
  below \<open>INT_MAX\<close>, so that \<^verbatim>\<open>memory.size() + 1\<close> is an \<^verbatim>\<open>int\<close>), \<^verbatim>\<open>allocate\<close> returns the
  smallest index at which \<open>d\<close> free cells start, sets exactly these cells to 1 and leaves
  every other cell as it was; it returns \<open>- 1\<close>, and leaves the airspace as it was, exactly
  when there is no run of \<open>d\<close> free cells.
\<close>

theorem allocate_first_fit:
  assumes "0 < d" "d \<le> int (length mem)" "int (length mem) < INT_MAX"
  shows "\<exists>s mem'. allocate mem d = Inr (s, mem')
           \<and> (s = - 1 \<longleftrightarrow> (\<forall>i. \<not> free_run mem i d))
           \<and> (s = - 1 \<longrightarrow> mem' = mem)
           \<and> (s \<noteq> - 1 \<longrightarrow>
                free_run mem s d \<and> (\<forall>i. free_run mem i d \<longrightarrow> s \<le> i)
                \<and> length mem' = length mem
                \<and> (\<forall>k < length mem.
                      mem' ! k = (if s \<le> int k \<and> int k < s + d then 1 else mem ! k)))"
proof -
  obtain s where a: "allocate mem d = Inr (s, if s = - 1 then mem else with_cells mem s d 1)"
    and sp: "if \<exists>k. free_run mem k d
             then free_run mem s d \<and> (\<forall>k. free_run mem k d \<longrightarrow> s \<le> k)
             else s = - 1"
    using allocate_fits [of d mem] assms by auto
  have neg: "\<not> free_run mem (- 1) d" by (simp add: free_run_def)
  have none: "s = - 1 \<longleftrightarrow> (\<forall>i. \<not> free_run mem i d)"
    using sp neg by (auto split: if_splits)
  have found: "s \<noteq> - 1 \<longrightarrow> free_run mem s d \<and> (\<forall>i. free_run mem i d \<longrightarrow> s \<le> i)"
    using sp by (auto split: if_splits)
  show ?thesis
  proof (cases "s = - 1")
    case True
    then show ?thesis using a none by simp
  next
    case False
    then have "allocate mem d = Inr (s, with_cells mem s d 1)" using a by simp
    then show ?thesis using False none found by (auto simp: nth_with_cells)
  qed
qed

theorem allocate_first_fit_witness:
  "(0 :: int) < 2 \<and> 2 \<le> int (length [1, 0, 0, 1, 0, 0, 0 :: int])
   \<and> int (length [1, 0, 0, 1, 0, 0, 0 :: int]) < INT_MAX
   \<and> allocate [1, 0, 0, 1, 0, 0, 0] 2 = Inr (1, [1, 1, 1, 1, 0, 0, 0])
   \<and> free_run [1, 0, 0, 1, 0, 0, 0] 1 2
   \<and> \<not> free_run [1, 0, 0, 1, 0, 0, 0] 0 2"
proof -
  let ?M = "[1, 0, 0, 1, 0, 0, 0 :: int]"
  have h: "(0 :: int) < 2" "2 \<le> int (length ?M)" "int (length ?M) < INT_MAX"
    by (simp_all add: INT_MAX_def)
  have e: "allocate ?M 2 = Inr (1, [1, 1, 1, 1, 0, 0, 0])" by code_simp
  have "free_run ?M 1 2 \<and> (\<forall>i. free_run ?M i 2 \<longrightarrow> 1 \<le> i)"
    using allocate_first_fit [OF h] e by auto
  then have "free_run ?M 1 2" "\<not> free_run ?M 0 2" by auto
  then show ?thesis using h e by simp
qed

text \<open>
  Claim C6. \<^verbatim>\<open>isSafe\<close> holds exactly when the number of free cells is at least the demand.
  It ignores fragmentation: in the airspace \<open>[0, 1, 0]\<close> it accepts the demand 2, for which
  there is no run of free cells and \<^verbatim>\<open>allocate\<close> returns \<open>- 1\<close>.
\<close>

theorem isSafe_counts_free_cells:
  "(isSafe mem d \<longleftrightarrow> d \<le> int (length (filter (\<lambda>m. m = 0) mem)))
   \<and> isSafe [0, 1, 0] 2 \<and> (\<forall>i. \<not> free_run [0, 1, 0] i 2)
   \<and> allocate [0, 1, 0] 2 = Inr (- 1, [0, 1, 0])"
proof -
  have "\<not> free_run [0, 1, 0] i 2" for i
  proof
    assume f: "free_run [0, 1, 0] i 2"
    then have "0 \<le> i \<and> i + 2 \<le> 3" by (simp add: free_run_def)
    then have "i = 0 \<or> i = 1" by auto
    then show False using f by (auto simp: free_run_def)
  qed
  moreover have "allocate [0, 1, 0] 2 = Inr (- 1, [0, 1, 0])" by code_simp
  moreover have "isSafe [0, 1, 0] 2" by (simp add: isSafe_def)
  ultimately show ?thesis by (simp add: isSafe_iff)
qed

text \<open>
  Claim C7. When \<^verbatim>\<open>allocate\<close> succeeds with the index \<open>s\<close>, \<^verbatim>\<open>deallocate\<close> called with \<open>s\<close>
  and the same demand gives back the airspace as it was before the allocation. The demand
  is any \<^verbatim>\<open>int\<close>, the capacity is below \<open>INT_MAX\<close>.
\<close>

theorem release_after_allocate:
  assumes "int (length mem) < INT_MAX" "INT_MIN \<le> d" "d \<le> INT_MAX"
    "allocate mem d = Inr (s, mem')" "s \<noteq> - 1"
  shows "deallocate mem' s d = Inr mem"
  using assms by (rule dealloc_restores)

theorem release_after_allocate_witness:
  "int (length [1, 0, 0, 1, 0, 0, 0 :: int]) < INT_MAX \<and> INT_MIN \<le> 3 \<and> (3 :: int) \<le> INT_MAX
   \<and> allocate [1, 0, 0, 1, 0, 0, 0] 3 = Inr (4, [1, 0, 0, 1, 1, 1, 1]) \<and> (4 :: int) \<noteq> - 1
   \<and> deallocate [1, 0, 0, 1, 1, 1, 1] 4 3 = Inr [1, 0, 0, 1, 0, 0, 0]"
proof -
  let ?M = "[1, 0, 0, 1, 0, 0, 0 :: int]"
  have h: "int (length ?M) < INT_MAX" "INT_MIN \<le> 3" "(3 :: int) \<le> INT_MAX"
    by (simp_all add: INT_MAX_def INT_MIN_def)
  have e: "allocate ?M 3 = Inr (4, [1, 0, 0, 1, 1, 1, 1])" by code_simp
  have n: "(4 :: int) \<noteq> - 1" by simp
  show ?thesis using h e n release_after_allocate [OF h e n] by simp
qed

text \<open>
  Claim C8. When the plane taken from the ready queue fails the safety check, or
  \<^verbatim>\<open>allocate\<close> returns \<open>- 1\<close> for it, the pass ends in a state (the clock being below
  \<open>INT_MAX\<close>): the same plane is pushed back onto the ready queue, which then holds the
  planes it held before the extraction, and the airspace and the chart data are as they
  were; the clock has moved by 1.
\<close>

theorem deferral_is_atomic:
  assumes "admit (time s) (incoming s) (readyQueue s) = (inc, rq)"
    "getNextPlane rq = (current, rq')" "id_p current \<noteq> - 1"
    "\<not> isSafe (memory s) (size_p current)
     \<or> (\<exists>mem. allocate (memory s) (size_p current) = Inr (- 1, mem))"
    "INT_MIN \<le> time s" "time s < INT_MAX"
  shows "\<exists>s'. step s = Inr s'
            \<and> incoming s' = inc \<and> readyQueue s' = rq' @ [current]
            \<and> mset (readyQueue s') = mset rq
            \<and> memory s' = memory s \<and> gantt s' = gantt s \<and> time s' = time s + 1"
proof -
  have t1: "add_int (time s) 1 = Inr (time s + 1)"
    using assms(5,6) by (intro add_int_in_range) simp_all
  have "rq \<noteq> []" using getNextPlane_real assms(2,3) by blast
  then have ms: "mset (rq' @ [current]) = mset rq"
    using getNextPlane_mset [OF _ assms(2)] by simp
  show ?thesis
  proof (cases "isSafe (memory s) (size_p current)")
    case False
    have "step s = Inr (s\<lparr>incoming := inc, readyQueue := addPlane rq' current, time := time s + 1\<rparr>)"
      using step_unsafe [OF assms(1-3) False] t1 by simp
    then show ?thesis using ms by (simp add: addPlane_def)
  next
    case True
    then obtain mem where al: "allocate (memory s) (size_p current) = Inr (- 1, mem)"
      using assms(4) by blast
    have "mem = memory s" using al by (rule allocate_none_unchanged)
    then have "step s = Inr (s\<lparr>incoming := inc, readyQueue := addPlane rq' current, time := time s + 1\<rparr>)"
      using step_no_space [OF assms(1-3) True al] t1 by simp
    then show ?thesis using ms by (simp add: addPlane_def)
  qed
qed

theorem deferral_is_atomic_witness:
  "admit (time (init [mkPlane 7 0 3 25 3 False])) (incoming (init [mkPlane 7 0 3 25 3 False]))
       (readyQueue (init [mkPlane 7 0 3 25 3 False]))
     = ([], [mkPlane 7 0 3 25 3 False])
   \<and> getNextPlane [mkPlane 7 0 3 25 3 False] = (mkPlane 7 0 3 25 3 False, [])
   \<and> id_p (mkPlane 7 0 3 25 3 False) \<noteq> - 1
   \<and> \<not> isSafe (memory (init [mkPlane 7 0 3 25 3 False])) (size_p (mkPlane 7 0 3 25 3 False))
   \<and> INT_MIN \<le> time (init [mkPlane 7 0 3 25 3 False])
   \<and> time (init [mkPlane 7 0 3 25 3 False]) < INT_MAX
   \<and> (\<exists>s'. step (init [mkPlane 7 0 3 25 3 False]) = Inr s'
          \<and> incoming s' = [] \<and> readyQueue s' = [mkPlane 7 0 3 25 3 False]
          \<and> memory s' = replicate 20 0 \<and> gantt s' = [] \<and> time s' = 1)"
proof -
  let ?q = "mkPlane 7 0 3 25 3 False"
  let ?s = "init [?q]"
  have a: "admit (time ?s) (incoming ?s) (readyQueue ?s) = ([], [?q])" by code_simp
  have g: "getNextPlane [?q] = (?q, [])" by code_simp
  have i: "id_p ?q \<noteq> - 1" by code_simp
  have u: "\<not> isSafe (memory ?s) (size_p ?q)" by code_simp
  have u': "\<not> isSafe (memory ?s) (size_p ?q)
            \<or> (\<exists>mem. allocate (memory ?s) (size_p ?q) = Inr (- 1, mem))"
    using u by simp
  have t: "INT_MIN \<le> time ?s" "time ?s < INT_MAX" by code_simp+
  have f: "memory ?s = replicate 20 0" "gantt ?s = []" "time ?s = 0"
    by (simp_all add: init_def MemoryManager_20)
  have "\<exists>s'. step ?s = Inr s' \<and> incoming s' = [] \<and> readyQueue s' = [?q]
          \<and> memory s' = replicate 20 0 \<and> gantt s' = [] \<and> time s' = 1"
    using deferral_is_atomic [OF a g i u' t] f by auto
  then show ?thesis using a g i u t by blast
qed

text \<open>
  Claim C9. In every state in which a run tests the loop condition all 20 cells of the
  airspace are free. So the safety check of the pass accepts exactly the demands up to 20,
  an allocation of such a demand starts at cell 0 and its release empties the airspace
  again, and the pass, when it ends in a state, ends with all cells free.
\<close>

theorem pool_empty_at_every_iteration:
  assumes "reachable planes s"
  shows "memory s = replicate 20 0
       \<and> (\<forall>d. isSafe (memory s) d \<longleftrightarrow> d \<le> 20)
       \<and> (\<forall>d. 0 \<le> d \<and> d \<le> 20 \<longrightarrow>
              allocate (memory s) d = Inr (0, with_cells (replicate 20 0) 0 d 1)
            \<and> deallocate (with_cells (replicate 20 0) 0 d 1) 0 d = Inr (replicate 20 0))
       \<and> (\<forall>s'. step s = Inr s' \<longrightarrow> memory s' = replicate 20 0)"
proof -
  have m: "memory s = replicate 20 0"
    using reachable_memory [OF assms] by (simp add: MemoryManager_20)
  have small: "int (length (memory s)) < INT_MAX" using m by (simp add: INT_MAX_def)
  have safe: "isSafe (memory s) d \<longleftrightarrow> d \<le> 20" for d
    using isSafe_empty_pool [of 20 d] m by simp
  have alloc: "allocate (memory s) d = Inr (0, with_cells (replicate 20 0) 0 d 1)
             \<and> deallocate (with_cells (replicate 20 0) 0 d 1) 0 d = Inr (replicate 20 0)"
    if "0 \<le> d \<and> d \<le> 20" for d
  proof -
    have a: "allocate (memory s) d = Inr (0, with_cells (replicate 20 0) 0 d 1)"
      using allocate_empty_pool [of d 20] that m by (simp add: INT_MAX_def)
    have "isSafe (memory s) d" using safe that by simp
    then have "deallocate (with_cells (replicate 20 0) 0 d 1) 0 d = Inr (memory s)"
      using allocate_after_isSafe(4) [OF small _ a] by simp
    then show ?thesis using a m by simp
  qed
  have nxt: "memory s' = replicate 20 0" if "step s = Inr s'" for s'
    using step_memory [OF small that] m by simp
  show ?thesis using m safe alloc nxt by blast
qed

theorem pool_empty_at_every_iteration_witness:
  "reachable [mkPlane 1 0 5 4 3 False]
     \<lparr>incoming = [], readyQueue = [], memory = replicate 20 0, time = 3, gantt = [(1, 3)]\<rparr>
   \<and> isSafe (replicate 20 0) 20 \<and> \<not> isSafe (replicate 20 0) 21
   \<and> allocate (replicate 20 0) 4 = Inr (0, with_cells (replicate 20 0) 0 4 1)
   \<and> deallocate (with_cells (replicate 20 0) 0 4 1) 0 4 = Inr (replicate 20 0)"
proof -
  let ?P = "[mkPlane 1 0 5 4 3 False]"
  let ?S = "\<lparr>incoming = [], readyQueue = [], memory = replicate 20 0, time = 3, gantt = [(1 :: int, 3 :: int)]\<rparr>"
  have p: "pending (init ?P)" by code_simp
  have e: "step (init ?P) = Inr ?S" by code_simp
  have r: "reachable ?P ?S" by (rule reachable_step [OF reachable_init p e])
  show ?thesis using r pool_empty_at_every_iteration [OF r] by simp
qed

text \<open>
  Claim C10. \<^verbatim>\<open>getNextPlane\<close> on an empty queue returns \<^verbatim>\<open>Plane(-1, 0, 0, 0, 0)\<close>, and the
  engine takes the branch of the empty queue whenever the plane it got has the id \<open>- 1\<close>:
  the clock moves by 1, the airspace and the chart data stay, and the ready queue is the
  one that \<^verbatim>\<open>getNextPlane\<close> left. A plane of the input with that id is thereby removed
  from the queues without a landing and without being pushed back.
\<close>

theorem sentinel_id_plane_is_dropped:
  assumes "admit (time s) (incoming s) (readyQueue s) = (inc, rq)"
    "getNextPlane rq = (current, rq')" "id_p current = - 1"
    "INT_MIN \<le> time s" "time s < INT_MAX"
  shows "getNextPlane [] = (mkPlane (- 1) 0 0 0 0 False, [])
       \<and> step s = Inr (s\<lparr>incoming := inc, readyQueue := rq', time := time s + 1\<rparr>)
       \<and> (rq \<noteq> [] \<longrightarrow>
            current \<in> set (incoming s @ readyQueue s)
          \<and> mset (incoming s) + mset (readyQueue s) = add_mset current (mset inc + mset rq'))"
proof -
  have t1: "add_int (time s) 1 = Inr (time s + 1)"
    using assms(4,5) by (intro add_int_in_range) simp_all
  have st: "step s = Inr (s\<lparr>incoming := inc, readyQueue := rq', time := time s + 1\<rparr>)"
    using step_idle [OF assms(1-3)] t1 by simp
  have "current \<in> set (incoming s @ readyQueue s)
      \<and> mset (incoming s) + mset (readyQueue s) = add_mset current (mset inc + mset rq')"
    if ne: "rq \<noteq> []"
  proof -
    have "current \<in> set rq" using getNextPlane_member [OF ne assms(2)] .
    then have "current \<in> set (incoming s @ readyQueue s)" using admit_set [OF assms(1)] by blast
    moreover have "mset (incoming s) + mset (readyQueue s) = add_mset current (mset inc + mset rq')"
      using admit_mset [OF assms(1)] getNextPlane_mset [OF ne assms(2)] by simp
    ultimately show ?thesis by simp
  qed
  then show ?thesis using st getNextPlane_Nil by blast
qed

theorem sentinel_id_plane_is_dropped_witness:
  "admit (time (init [mkPlane (- 1) 0 5 4 3 False])) (incoming (init [mkPlane (- 1) 0 5 4 3 False]))
       (readyQueue (init [mkPlane (- 1) 0 5 4 3 False]))
     = ([], [mkPlane (- 1) 0 5 4 3 False])
   \<and> getNextPlane [mkPlane (- 1) 0 5 4 3 False] = (mkPlane (- 1) 0 5 4 3 False, [])
   \<and> id_p (mkPlane (- 1) 0 5 4 3 False) = - 1
   \<and> INT_MIN \<le> time (init [mkPlane (- 1) 0 5 4 3 False])
   \<and> time (init [mkPlane (- 1) 0 5 4 3 False]) < INT_MAX
   \<and> step (init [mkPlane (- 1) 0 5 4 3 False])
       = Inr \<lparr>incoming = [], readyQueue = [], memory = replicate 20 0, time = 1, gantt = []\<rparr>
   \<and> simulate [mkPlane (- 1) 0 5 4 3 False] = Inr []"
proof -
  let ?q = "mkPlane (- 1) 0 5 4 3 False"
  let ?s = "init [?q]"
  have a: "admit (time ?s) (incoming ?s) (readyQueue ?s) = ([], [?q])" by code_simp
  have g: "getNextPlane [?q] = (?q, [])" by code_simp
  have i: "id_p ?q = - 1" by code_simp
  have t: "INT_MIN \<le> time ?s" "time ?s < INT_MAX" by code_simp+
  have "step ?s = Inr (?s\<lparr>incoming := [], readyQueue := [], time := time ?s + 1\<rparr>)"
    using sentinel_id_plane_is_dropped [OF a g i t] by simp
  then have "step ?s = Inr \<lparr>incoming = [], readyQueue = [], memory = replicate 20 0, time = 1, gantt = []\<rparr>"
    by (simp add: init_def MemoryManager_20)
  moreover have "simulate [?q] = Inr []" by code_simp
  ultimately show ?thesis using a g i t by simp
qed

end
